theory Spec2Isabelle
  imports Main "HOL-Library.Word" "HOL-Library.Signed_Division"
begin

section \<open>Machine integers and panics\<close>

text \<open>
  The logger works on Go byte slices. A byte is modelled as a \<open>char\<close> (8 bits), the contents
  of a \<open>[]byte\<close> or of a Go \<open>string\<close> as a \<open>char list\<close>. An \<open>int64\<close> is a 64-bit word read
  as two's complement: \<open>+\<close> and unary \<open>-\<close> wrap, comparisons are the signed ones, and Go's
  \<open>/\<close> and \<open>%\<close> truncate towards zero.

  The only run-time panic the encoders can raise is an index out of range on the fixed
  array \<open>tmp [20]byte\<close> of \<open>appendInt\<close>; it is a value of type \<open>panic\<close>, and every encoder
  returns \<open>panic + bytes\<close>.
\<close>

datatype panic = IndexOutOfRange

type_synonym int64 = "64 word"

type_synonym bytes = "char list"

definition int64_quo :: "int64 \<Rightarrow> int64 \<Rightarrow> int64" where
  "int64_quo a b = word_of_int (sint a sdiv sint b)"

definition int64_rem :: "int64 \<Rightarrow> int64 \<Rightarrow> int64" where
  "int64_rem a b = word_of_int (sint a smod sint b)"

text \<open>The conversion \<open>byte(x)\<close> of an \<open>int64\<close> keeps the low 8 bits.\<close>

definition byte_of_int64 :: "int64 \<Rightarrow> char" where
  "byte_of_int64 w = char_of (unat w)"

definition MinInt64 :: int64 where
  "MinInt64 = - 9223372036854775808"

section \<open>Standard base-10 formatting (the reference the encoder is compared with)\<close>

text \<open>
  \<open>decimal_int\<close> follows the words of the specification, "standard base-10 integer
  formatting": a minus sign for a negative number, then the digits of the magnitude, most
  significant first, with no leading zero. It is defined on unbounded integers and owes
  nothing to the code; \<open>parse_decimal\<close> is the usual positional reading of a digit string.
\<close>

definition digit_char :: "nat \<Rightarrow> char" where
  "digit_char d = char_of (48 + d)"

fun decimal_nat :: "nat \<Rightarrow> string" where
  "decimal_nat n =
     (if n < 10 then [digit_char n] else decimal_nat (n div 10) @ [digit_char (n mod 10)])"

declare decimal_nat.simps [simp del]

definition decimal_int :: "int \<Rightarrow> string" where
  "decimal_int k = (if k < 0 then CHR ''-'' # decimal_nat (nat (- k)) else decimal_nat (nat k))"

definition is_digit :: "char \<Rightarrow> bool" where
  "is_digit c = (48 \<le> (of_char c :: nat) \<and> (of_char c :: nat) \<le> 57)"

definition digit_val :: "char \<Rightarrow> nat" where
  "digit_val c = of_char c - 48"

definition parse_decimal :: "string \<Rightarrow> nat" where
  "parse_decimal s = foldl (\<lambda>a c. 10 * a + digit_val c) 0 s"

section \<open>appendInt\<close>

text \<open>
  The loop of \<open>appendInt\<close> fills \<open>tmp\<close> from the right. \<open>idx--\<close> followed by \<open>tmp[idx] = ...\<close>
  panics when \<open>idx\<close> is already 0 (the index would be -1); the model checks this before
  the decrement. The loop runs while \<open>i > 0\<close> in the signed reading.
\<close>

function appendInt_loop :: "int64 \<Rightarrow> bytes \<Rightarrow> nat \<Rightarrow> panic + (bytes \<times> nat)" where
  "appendInt_loop i tmp idx =
     (if 0 <s i then
        (if idx = 0 then Inl IndexOutOfRange
         else appendInt_loop (int64_quo i 10)
                (tmp[idx - 1 := byte_of_int64 (48 + int64_rem i 10)]) (idx - 1))
      else Inr (tmp, idx))"
  by pat_completeness auto

termination
proof (relation "measure (\<lambda>(i, tmp, idx). nat (sint i))")
  show "wf (measure (\<lambda>(i, tmp, idx). nat (sint i)))" by simp
next
  fix i :: int64 and tmp :: bytes and idx :: nat
  assume "0 <s i"
  then have p: "0 < sint i" by (simp add: word_sless_alt)
  have b: "sint i < 2 ^ 63" using sint_lt [of i] by simp
  have "sint i sdiv 10 = sint i div 10" using p
    by (simp add: signed_divide_int_def sgn_if)
  moreover have "sint (word_of_int (sint i div 10) :: int64) = sint i div 10"
    using p b by (simp add: signed_of_int signed_take_bit_int_eq_self)
  ultimately have "sint (int64_quo i 10) = sint i div 10" by (simp add: int64_quo_def)
  then show "((int64_quo i 10, tmp[idx - 1 := byte_of_int64 (48 + int64_rem i 10)], idx - 1),
              (i, tmp, idx)) \<in> measure (\<lambda>(i, tmp, idx). nat (sint i))"
    using p by simp
qed

declare appendInt_loop.simps [simp del]

definition appendInt :: "bytes \<Rightarrow> int64 \<Rightarrow> panic + bytes" where
  "appendInt buf i =
     (if i = 0 then Inr (buf @ [CHR ''0''])
      else
        let (buf1, i1) = (if i <s 0 then (buf @ [CHR ''-''], - i) else (buf, i))
        in case appendInt_loop i1 (replicate 20 (CHR 0x00)) 20 of
             Inl e \<Rightarrow> Inl e
           | Inr (tmp, idx) \<Rightarrow> Inr (buf1 @ drop idx tmp))"

section \<open>float64\<close>

text \<open>
  A finite \<open>float64\<close> is \<open>Finite m e\<close>, the number \<open>m * 2 ^ e\<close>; the values of the type are
  those with \<open>\<bar>m\<bar> < 2 ^ 53\<close>, \<open>- 1074 \<le> e\<close> and magnitude below \<open>2 ^ 1024\<close>, together with the
  two infinities and NaN. The two zeros are not told apart: the only test the code makes on
  a zero is \<open>f == 0.0\<close>, which holds for both. \<open>round_float64\<close> is IEEE 754 rounding to
  nearest, ties to even, of an exact dyadic number \<open>m * 2 ^ e\<close>: to 53 significant bits, to
  a multiple of \<open>2 ^ - 1074\<close>, and to an infinity on overflow. Subtraction and
  multiplication round their exact result, as the hardware does.
\<close>

datatype float64 = Finite int int | PosInf | NegInf | NaN

fun bit_length :: "nat \<Rightarrow> nat" where
  "bit_length n = (if n = 0 then 0 else Suc (bit_length (n div 2)))"

declare bit_length.simps [simp del]

definition round_float64 :: "int \<Rightarrow> int \<Rightarrow> float64" where
  "round_float64 m e =
     (let a = nat \<bar>m\<bar>;
          k = max (int (bit_length a) - 53) (- 1074 - e)
      in if k \<le> 0 then
           (if 0 \<le> e \<and> 2 ^ 1024 \<le> a * 2 ^ nat e then (if m < 0 then NegInf else PosInf)
            else Finite m e)
         else
           let q = a div 2 ^ nat k;
               r = a mod 2 ^ nat k;
               half = 2 ^ (nat k - 1);
               q' = (if half < r \<or> (r = half \<and> odd q) then q + 1 else q);
               e' = e + k
           in if 0 \<le> e' \<and> 2 ^ 1024 \<le> q' * 2 ^ nat e' then (if m < 0 then NegInf else PosInf)
              else Finite (sgn m * int q') e')"

definition f64_neg :: "float64 \<Rightarrow> float64" where
  "f64_neg f = (case f of Finite m e \<Rightarrow> Finite (- m) e | PosInf \<Rightarrow> NegInf
                | NegInf \<Rightarrow> PosInf | NaN \<Rightarrow> NaN)"

definition f64_is_zero :: "float64 \<Rightarrow> bool" where
  "f64_is_zero f = (case f of Finite m e \<Rightarrow> m = 0 | _ \<Rightarrow> False)"

definition f64_lt_zero :: "float64 \<Rightarrow> bool" where
  "f64_lt_zero f = (case f of Finite m e \<Rightarrow> m < 0 | NegInf \<Rightarrow> True | _ \<Rightarrow> False)"

definition f64_gt_zero :: "float64 \<Rightarrow> bool" where
  "f64_gt_zero f = (case f of Finite m e \<Rightarrow> 0 < m | PosInf \<Rightarrow> True | _ \<Rightarrow> False)"

definition f64_sub :: "float64 \<Rightarrow> float64 \<Rightarrow> float64" where
  "f64_sub f g =
     (case (f, g) of
        (NaN, _) \<Rightarrow> NaN
      | (_, NaN) \<Rightarrow> NaN
      | (PosInf, PosInf) \<Rightarrow> NaN
      | (NegInf, NegInf) \<Rightarrow> NaN
      | (PosInf, _) \<Rightarrow> PosInf
      | (NegInf, _) \<Rightarrow> NegInf
      | (_, PosInf) \<Rightarrow> NegInf
      | (_, NegInf) \<Rightarrow> PosInf
      | (Finite m1 e1, Finite m2 e2) \<Rightarrow>
          (let e = min e1 e2
           in round_float64 (m1 * 2 ^ nat (e1 - e) - m2 * 2 ^ nat (e2 - e)) e))"

definition f64_mul :: "float64 \<Rightarrow> float64 \<Rightarrow> float64" where
  "f64_mul f g =
     (case (f, g) of
        (NaN, _) \<Rightarrow> NaN
      | (_, NaN) \<Rightarrow> NaN
      | (Finite m1 e1, Finite m2 e2) \<Rightarrow> round_float64 (m1 * m2) (e1 + e2)
      | _ \<Rightarrow> (if f64_is_zero f \<or> f64_is_zero g then NaN
               else if f64_lt_zero f = f64_lt_zero g then PosInf else NegInf))"

text \<open>
  The conversion \<open>int64(f)\<close> discards the fraction. Where the truncated value does not fit
  an \<open>int64\<close>, and for an infinity or NaN, Go leaves the result to the implementation: it is
  the parameter \<open>cvt\<close> of the model (on amd64 it is the least \<open>int64\<close>). The conversion
  \<open>float64(i)\<close> rounds.
\<close>

definition f64_trunc :: "int \<Rightarrow> int \<Rightarrow> int" where
  "f64_trunc m e = (if 0 \<le> e then m * 2 ^ nat e else sgn m * (\<bar>m\<bar> div 2 ^ nat (- e)))"

definition int64_of_float64 :: "(float64 \<Rightarrow> int64) \<Rightarrow> float64 \<Rightarrow> int64" where
  "int64_of_float64 cvt f =
     (case f of
        Finite m e \<Rightarrow>
          (let t = f64_trunc m e
           in if - (2 ^ 63) \<le> t \<and> t < 2 ^ 63 then word_of_int t else cvt f)
      | _ \<Rightarrow> cvt f)"

definition float64_of_int64 :: "int64 \<Rightarrow> float64" where
  "float64_of_int64 i = round_float64 (sint i) 0"

definition amd64_cvt :: "float64 \<Rightarrow> int64" where
  "amd64_cvt f = MinInt64"

section \<open>The value encoders\<close>

text \<open>
  A field value is an \<open>interface{}\<close>; the type switches of the encoders tell five dynamic
  types apart and send every other one to \<open>default\<close>. \<open>VInt\<close> carries the value of a Go
  \<open>int\<close> after the conversion \<open>int64(v)\<close>, which keeps the value.
\<close>

datatype go_value =
    VString string
  | VInt int64
  | VInt64 int64
  | VFloat64 float64
  | VBool bool
  | VOther

record Field =
  Key :: string
  Value :: go_value

abbreviation dquote :: char where "dquote \<equiv> CHR 0x22"

abbreviation backslash :: char where "backslash \<equiv> CHR 0x5C"

abbreviation newline :: char where "newline \<equiv> CHR 0x0A"

abbreviation carriage_return :: char where "carriage_return \<equiv> CHR 0x0D"

abbreviation tab :: char where "tab \<equiv> CHR 0x09"

definition appendJSONFloat :: "(float64 \<Rightarrow> int64) \<Rightarrow> bytes \<Rightarrow> float64 \<Rightarrow> panic + bytes" where
  "appendJSONFloat cvt buf f =
     (if f64_is_zero f then Inr (buf @ [CHR ''0''])
      else
        let (buf1, f1) = (if f64_lt_zero f then (buf @ [CHR ''-''], f64_neg f) else (buf, f));
            integer = int64_of_float64 cvt f1;
            fractional = f64_sub f1 (float64_of_int64 integer)
        in case appendInt buf1 integer of
             Inl e \<Rightarrow> Inl e
           | Inr buf2 \<Rightarrow>
               if f64_gt_zero fractional then
                 appendInt (buf2 @ [CHR ''.''])
                   (int64_of_float64 cvt (f64_mul fractional (Finite 1000 0)))
               else Inr buf2)"

text \<open>
  \<open>needsQuoting\<close> ranges over the runes of the string. The three characters it looks for
  are ASCII, and in UTF-8 (well formed or not) a byte below 0x80 is always a rune of its
  own, so the scan over bytes finds the same strings.
\<close>

fun needsQuoting :: "string \<Rightarrow> bool" where
  "needsQuoting [] = False"
| "needsQuoting (r # s) =
     (if r = CHR '' '' \<or> r = CHR ''='' \<or> r = dquote then True else needsQuoting s)"

definition appendValue :: "(float64 \<Rightarrow> int64) \<Rightarrow> bytes \<Rightarrow> go_value \<Rightarrow> panic + bytes" where
  "appendValue cvt buf val =
     (case val of
        VString v \<Rightarrow>
          Inr (if needsQuoting v then buf @ [dquote] @ v @ [dquote] else buf @ v)
      | VInt v \<Rightarrow> appendInt buf v
      | VInt64 v \<Rightarrow> appendInt buf v
      | VFloat64 v \<Rightarrow> appendJSONFloat cvt buf v
      | VBool v \<Rightarrow> Inr (if v then buf @ ''true'' else buf @ ''false'')
      | VOther \<Rightarrow> Inr (buf @ [dquote] @ ''unknown'' @ [dquote]))"

fun appendJSONString :: "bytes \<Rightarrow> string \<Rightarrow> bytes" where
  "appendJSONString buf [] = buf"
| "appendJSONString buf (r # s) =
     appendJSONString
       (if r = dquote then buf @ [backslash, dquote]
        else if r = backslash then buf @ [backslash, backslash]
        else if r = newline then buf @ [backslash, CHR ''n'']
        else if r = carriage_return then buf @ [backslash, CHR ''r'']
        else if r = tab then buf @ [backslash, CHR ''t'']
        else buf @ [r]) s"

definition appendJSONValue :: "(float64 \<Rightarrow> int64) \<Rightarrow> bytes \<Rightarrow> go_value \<Rightarrow> panic + bytes" where
  "appendJSONValue cvt buf val =
     (case val of
        VString v \<Rightarrow> Inr (appendJSONString (buf @ [dquote]) v @ [dquote])
      | VInt v \<Rightarrow> appendInt buf v
      | VInt64 v \<Rightarrow> appendInt buf v
      | VFloat64 v \<Rightarrow> appendJSONFloat cvt buf v
      | VBool v \<Rightarrow> Inr (if v then buf @ ''true'' else buf @ ''false'')
      | VOther \<Rightarrow> Inr (appendJSONString (buf @ [dquote]) ''unknown'' @ [dquote]))"

section \<open>Levels and formats\<close>

type_synonym int8 = "8 word"

definition DebugLevel :: int8 where "DebugLevel = - 1"

definition InfoLevel :: int8 where "InfoLevel = 0"

definition WarnLevel :: int8 where "WarnLevel = 1"

definition ErrorLevel :: int8 where "ErrorLevel = 2"

definition FatalLevel :: int8 where "FatalLevel = 3"

definition PanicLevel :: int8 where "PanicLevel = 4"

definition Level_String :: "int8 \<Rightarrow> string" where
  "Level_String l =
     (if l = DebugLevel then ''DEBUG''
      else if l = InfoLevel then ''INFO''
      else if l = WarnLevel then ''WARN''
      else if l = ErrorLevel then ''ERROR''
      else if l = FatalLevel then ''FATAL''
      else if l = PanicLevel then ''PANIC''
      else ''UNKNOWN'')"

definition TextFormat :: int8 where "TextFormat = 0"

definition JSONFormat :: int8 where "JSONFormat = 1"

section \<open>The clock and the time layouts\<close>

text \<open>
  \<open>time.Now()\<close> is an input of the model: an instant (seconds and nanoseconds since the Unix
  epoch) with the offset from UTC, in seconds, of the local zone at that instant. \<open>UTC()\<close>
  keeps the instant and sets the offset to zero. Package \<open>time\<close> belongs to the Go library,
  not to this repository; \<open>Time_Format\<close> renders the two layouts the logger uses as the
  library documents them: the date and clock fields of the instant in its zone, a fraction
  of fixed width for \<open>.000\<close> or with trailing zeros removed for \<open>.999999999\<close>, and for
  \<open>Z07:00\<close> the letter Z at offset zero and a signed \<open>hh:mm\<close> otherwise.
\<close>

record Time =
  unix_sec :: int
  nsec :: nat
  zone_offset :: int

definition UTC :: "Time \<Rightarrow> Time" where
  "UTC t = t\<lparr>zone_offset := 0\<rparr>"

definition civil_from_days :: "int \<Rightarrow> int \<times> int \<times> int" where
  "civil_from_days days =
     (let z = days + 719468;
          era = z div 146097;
          doe = z mod 146097;
          yoe = (doe - doe div 1460 + doe div 36524 - doe div 146096) div 365;
          doy = doe - (365 * yoe + yoe div 4 - yoe div 100);
          mp = (5 * doy + 2) div 153;
          d = doy - (153 * mp + 2) div 5 + 1;
          m = (if mp < 10 then mp + 3 else mp - 9);
          y = yoe + era * 400
      in (if m \<le> 2 then y + 1 else y, m, d))"

definition pad_nat :: "nat \<Rightarrow> nat \<Rightarrow> string" where
  "pad_nat width n = replicate (width - length (decimal_nat n)) (CHR ''0'') @ decimal_nat n"

definition pad_int :: "nat \<Rightarrow> int \<Rightarrow> string" where
  "pad_int width x =
     (if x < 0 then CHR ''-'' # pad_nat width (nat (- x)) else pad_nat width (nat x))"

definition format_clock :: "Time \<Rightarrow> string" where
  "format_clock t =
     (let abs = unix_sec t + zone_offset t;
          sod = abs mod 86400;
          (y, m, d) = civil_from_days (abs div 86400)
      in pad_int 4 y @ ''-'' @ pad_int 2 m @ ''-'' @ pad_int 2 d @ ''T''
         @ pad_int 2 (sod div 3600) @ '':'' @ pad_int 2 (sod mod 3600 div 60)
         @ '':'' @ pad_int 2 (sod mod 60))"

definition format_zone :: "int \<Rightarrow> string" where
  "format_zone off =
     (if off = 0 then ''Z''
      else
        let zone = off sdiv 60;
            (sign, z) = (if zone < 0 then (CHR ''-'', - zone) else (CHR ''+'', zone))
        in sign # pad_int 2 (z div 60) @ '':'' @ pad_int 2 (z mod 60))"

definition frac_fixed :: "nat \<Rightarrow> nat \<Rightarrow> string" where
  "frac_fixed digits ns = CHR ''.'' # take digits (pad_nat 9 ns)"

definition frac_trimmed :: "nat \<Rightarrow> string" where
  "frac_trimmed ns =
     (if ns = 0 then []
      else CHR ''.'' # rev (dropWhile (\<lambda>c. c = CHR ''0'') (rev (pad_nat 9 ns))))"

definition RFC3339Nano :: string where
  "RFC3339Nano = ''2006-01-02T15:04:05.999999999Z07:00''"

definition Time_Format :: "Time \<Rightarrow> string \<Rightarrow> string" where
  "Time_Format t layout =
     (if layout = ''2006-01-02T15:04:05.000Z07:00'' then
        format_clock t @ frac_fixed 3 (nsec t) @ format_zone (zone_offset t)
      else if layout = RFC3339Nano then
        format_clock t @ frac_trimmed (nsec t) @ format_zone (zone_offset t)
      else [])"

section \<open>The record encoders\<close>

text \<open>
  Both encoders are methods of the logger and read the clock themselves; the clock reading
  \<open>now\<close> is an argument of the model. \<open>appendText\<close> does not look at the configuration at
  all and converts the reading to UTC; \<open>appendJSON\<close> converts it only when \<open>UseUTC\<close> is set.
  The field \<open>UseUTC\<close> is read by \<open>appendJSON\<close> and set by \<open>ConfigFromEnv\<close>; the declaration
  of \<open>Config\<close> shown with the logger lacks it, and the record here has it.
\<close>

record Config =
  Level :: int8
  Format :: int8
  BufferSize :: int
  UseUTC :: bool

fun appendText_fields :: "(float64 \<Rightarrow> int64) \<Rightarrow> bytes \<Rightarrow> Field list \<Rightarrow> panic + bytes" where
  "appendText_fields cvt buf [] = Inr buf"
| "appendText_fields cvt buf (fld # flds) =
     (case appendValue cvt (buf @ [CHR '' ''] @ Key fld @ [CHR ''='']) (Value fld) of
        Inl e \<Rightarrow> Inl e
      | Inr buf' \<Rightarrow> appendText_fields cvt buf' flds)"

definition appendText ::
  "(float64 \<Rightarrow> int64) \<Rightarrow> Config \<Rightarrow> Time \<Rightarrow> bytes \<Rightarrow> int8 \<Rightarrow> string \<Rightarrow> Field list \<Rightarrow> panic + bytes"
where
  "appendText cvt cfg now0 buf level msg flds =
     (let now = UTC now0;
          buf1 = buf @ Time_Format now ''2006-01-02T15:04:05.000Z07:00'';
          buf2 = buf1 @ [CHR '' ''];
          buf3 = buf2 @ Level_String level;
          buf4 = buf3 @ [CHR '' ''];
          buf5 = buf4 @ msg
      in appendText_fields cvt buf5 flds)"

fun appendJSON_fields :: "(float64 \<Rightarrow> int64) \<Rightarrow> bytes \<Rightarrow> Field list \<Rightarrow> panic + bytes" where
  "appendJSON_fields cvt buf [] = Inr buf"
| "appendJSON_fields cvt buf (fld # flds) =
     (case appendJSONValue cvt
             (appendJSONString (buf @ [CHR '','', dquote]) (Key fld) @ [dquote, CHR '':''])
             (Value fld) of
        Inl e \<Rightarrow> Inl e
      | Inr buf' \<Rightarrow> appendJSON_fields cvt buf' flds)"

definition appendJSON ::
  "(float64 \<Rightarrow> int64) \<Rightarrow> Config \<Rightarrow> Time \<Rightarrow> bytes \<Rightarrow> int8 \<Rightarrow> string \<Rightarrow> Field list \<Rightarrow> panic + bytes"
where
  "appendJSON cvt cfg now0 buf level msg flds =
     (let buf1 = buf @ [CHR ''{''];
          now = (if UseUTC cfg then UTC now0 else now0);
          buf2 = buf1 @ [dquote] @ ''timestamp'' @ [dquote, CHR '':'', dquote];
          buf3 = buf2 @ Time_Format now RFC3339Nano;
          buf4 = buf3 @ [dquote];
          buf5 = buf4 @ [CHR '','', dquote] @ ''level'' @ [dquote, CHR '':'', dquote];
          buf6 = buf5 @ Level_String level;
          buf7 = buf6 @ [dquote];
          buf8 = buf7 @ [CHR '','', dquote] @ ''message'' @ [dquote, CHR '':'', dquote];
          buf9 = appendJSONString buf8 msg;
          buf10 = buf9 @ [dquote]
      in case appendJSON_fields cvt buf10 flds of
           Inl e \<Rightarrow> Inl e
         | Inr buf11 \<Rightarrow> Inr (buf11 @ [CHR ''}'']))"

section \<open>The logger: scratch pool, accumulation buffer, sink\<close>

text \<open>
  A scratch buffer is a slice: the bytes within its length, and its capacity. The pool is
  the list of idle slices; \<open>Get\<close> takes one if there is one (which one \<open>sync.Pool\<close> hands
  out is not specified: the model takes the one put back last) and otherwise calls \<open>New\<close>,
  which makes an empty slice of capacity 256.

  What the logger does to the outside is recorded in order in \<open>trace\<close>: locking and
  unlocking \<open>mu\<close>, each \<open>Write\<close> to \<open>config.Output\<close> with its bytes (the results of \<open>Write\<close>
  are discarded by the code, and the writer itself is not a field of the model), and each
  \<open>Get\<close> and \<open>Put\<close> on the pool. Calls on one logger are taken one after the other.

  \<open>New\<close> allocates the accumulation buffer with \<open>make([]byte, 0, config.BufferSize)\<close>. The
  runtime's \<open>makeslice\<close> panics (\<open>cap out of range\<close>) when the capacity is negative or more
  than \<open>maxAlloc\<close> bytes, which is \<open>2 ^ 48\<close> on the 64-bit platforms with 48 address bits for
  the heap (linux/amd64 among them). A capacity within that bound that the machine cannot
  provide ends the program with the fatal error \<open>out of memory\<close>; how many bytes the machine
  can provide is the argument \<open>avail\<close> of the model.
\<close>

record slice =
  bytes_of :: bytes
  cap :: nat

datatype event =
    MuLock
  | MuUnlock
  | OutputWrite bytes
  | PoolGet slice
  | PoolPut slice

record Logger =
  config :: Config
  buffer :: bytes
  pool :: "slice list"
  trace :: "event list"

datatype new_panic = MakeSliceCapOutOfRange | OutOfMemory

definition maxAlloc :: int where
  "maxAlloc = 2 ^ 48"

definition New :: "int \<Rightarrow> Config \<Rightarrow> new_panic + Logger" where
  "New avail cfg =
     (if BufferSize cfg < 0 \<or> maxAlloc < BufferSize cfg then Inl MakeSliceCapOutOfRange
      else if avail < BufferSize cfg then Inl OutOfMemory
      else Inr \<lparr>config = cfg, buffer = [], pool = [], trace = []\<rparr>)"

definition pool_New :: slice where
  "pool_New = \<lparr>bytes_of = [], cap = 256\<rparr>"

definition pool_Get :: "Logger \<Rightarrow> slice \<times> Logger" where
  "pool_Get l =
     (case pool l of
        [] \<Rightarrow> (pool_New, l\<lparr>trace := trace l @ [PoolGet pool_New]\<rparr>)
      | b # bs \<Rightarrow> (b, l\<lparr>pool := bs, trace := trace l @ [PoolGet b]\<rparr>))"

definition pool_Put :: "Logger \<Rightarrow> slice \<Rightarrow> Logger" where
  "pool_Put l b = l\<lparr>pool := b # pool l, trace := trace l @ [PoolPut b]\<rparr>"

definition flush :: "Logger \<Rightarrow> Logger" where
  "flush l =
     (if length (buffer l) > 0
      then l\<lparr>trace := trace l @ [OutputWrite (buffer l)], buffer := []\<rparr>
      else l)"

definition Logger_write :: "Logger \<Rightarrow> bytes \<Rightarrow> Logger" where
  "Logger_write l buf =
     (if BufferSize (config l) > 0 then
        let l1 = l\<lparr>trace := trace l @ [MuLock]\<rparr>;
            l2 = (if int (length (buffer l1)) + int (length buf) > BufferSize (config l1)
                  then flush l1 else l1);
            l3 = l2\<lparr>buffer := buffer l2 @ buf\<rparr>;
            l4 = l3\<lparr>buffer := buffer l3 @ [newline]\<rparr>
        in l4\<lparr>trace := trace l4 @ [MuUnlock]\<rparr>
      else
        l\<lparr>trace := trace l @ [OutputWrite buf, OutputWrite [newline]]\<rparr>)"

definition Flush :: "Logger \<Rightarrow> Logger" where
  "Flush l =
     (if BufferSize (config l) > 0 then
        let l1 = l\<lparr>trace := trace l @ [MuLock]\<rparr>;
            l2 = flush l1
        in l2\<lparr>trace := trace l2 @ [MuUnlock]\<rparr>
      else l)"

text \<open>
  \<open>log\<close>: the argument of the deferred \<open>l.pool.Put(buf)\<close> is evaluated when the \<open>defer\<close>
  statement runs, so what goes back to the pool is the slice as it is right after
  \<open>buf = buf[:0]\<close>; the later assignments to the local \<open>buf\<close> do not reach it. The encoders
  continue from the (empty) contents of that slice. When an encoder panics the panic
  leaves \<open>log\<close>; the model then gives no logger back.
\<close>

definition log ::
  "(float64 \<Rightarrow> int64) \<Rightarrow> Time \<Rightarrow> Logger \<Rightarrow> int8 \<Rightarrow> string \<Rightarrow> Field list \<Rightarrow> panic + Logger"
where
  "log cvt now l level msg flds =
     (if level <s Level (config l) then Inr l
      else
        let (got, l1) = pool_Get l;
            buf = got\<lparr>bytes_of := []\<rparr>;
            deferred = buf
        in case (if Format (config l1) = JSONFormat
                 then appendJSON cvt (config l1) now (bytes_of buf) level msg flds
                 else appendText cvt (config l1) now (bytes_of buf) level msg flds) of
             Inl e \<Rightarrow> Inl e
           | Inr encoded \<Rightarrow> Inr (pool_Put (Logger_write l1 encoded) deferred))"

definition writes :: "event list \<Rightarrow> bytes list" where
  "writes evs = concat (map (\<lambda>ev. case ev of OutputWrite b \<Rightarrow> [b] | _ \<Rightarrow> []) evs)"

definition sink :: "Logger \<Rightarrow> bytes" where
  "sink l = concat (writes (trace l))"

section \<open>JSON texts (the reference the JSON records are compared with)\<close>

text \<open>
  A reader for the JSON grammar of RFC 8259, over bytes: values are \<open>null\<close>, \<open>true\<close>,
  \<open>false\<close>, numbers, strings, arrays and objects, with optional white space around the
  structural characters. Inside a string a byte below 0x20, a bare double quote and a bare
  backslash are not allowed; the escapes are the two-character ones and \<open>\u\<close> with four
  hexadecimal digits. A JSON text is encoded in UTF-8 (RFC 8259, section 8.1): inside a
  string a byte from 0x80 on must begin a well-formed UTF-8 sequence (RFC 3629: shortest
  form only, no surrogate, nothing above U+10FFFF), and the reader refuses the text
  otherwise; outside strings the grammar admits no such byte. The reader returns what it
  read: a number as its text, a string with its escapes resolved (a \<open>\u\<close> escape as the
  UTF-8 bytes of that code unit), the members of an object in their order and with their
  duplicates. Its recursion runs on a counter that is one more than the length of the
  text, which no JSON text exhausts, as every recursive call comes after at least one byte
  has been consumed.
\<close>

datatype json =
    JNull
  | JBool bool
  | JNumber string
  | JString string
  | JArray "json list"
  | JObject "(string \<times> json) list"

definition is_ws :: "char \<Rightarrow> bool" where
  "is_ws c = (c = CHR '' '' \<or> c = tab \<or> c = newline \<or> c = carriage_return)"

definition skip_ws :: "string \<Rightarrow> string" where
  "skip_ws s = dropWhile is_ws s"

definition hex_val :: "char \<Rightarrow> nat option" where
  "hex_val c =
     (let n = (of_char c :: nat)
      in if 48 \<le> n \<and> n \<le> 57 then Some (n - 48)
         else if 65 \<le> n \<and> n \<le> 70 then Some (n - 55)
         else if 97 \<le> n \<and> n \<le> 102 then Some (n - 87)
         else None)"

definition utf8_encode :: "nat \<Rightarrow> string" where
  "utf8_encode n =
     (if n < 128 then [char_of n]
      else if n < 2048 then [char_of (192 + n div 64), char_of (128 + n mod 64)]
      else [char_of (224 + n div 4096), char_of (128 + n div 64 mod 64), char_of (128 + n mod 64)])"

definition unescape :: "char \<Rightarrow> char option" where
  "unescape e =
     (if e = dquote then Some dquote
      else if e = backslash then Some backslash
      else if e = CHR ''/'' then Some (CHR ''/'')
      else if e = CHR ''b'' then Some (CHR 0x08)
      else if e = CHR ''f'' then Some (CHR 0x0C)
      else if e = CHR ''n'' then Some newline
      else if e = CHR ''r'' then Some carriage_return
      else if e = CHR ''t'' then Some tab
      else None)"

definition cons_result :: "string \<Rightarrow> (string \<times> string) option \<Rightarrow> (string \<times> string) option" where
  "cons_result pre r = (case r of None \<Rightarrow> None | Some (s, rest) \<Rightarrow> Some (pre @ s, rest))"

text \<open>
  Well-formed UTF-8, after table 3-7 of the Unicode standard: for each leading byte, the
  ranges its continuation bytes must lie in. \<open>utf8_tail c cs\<close> is the number of continuation
  bytes when \<open>c\<close> followed by \<open>cs\<close> begins with a well-formed sequence of two to four bytes.
\<close>

definition utf8_ranges :: "nat \<Rightarrow> (nat \<times> nat) list option" where
  "utf8_ranges b =
     (if 0xC2 \<le> b \<and> b \<le> 0xDF then Some [(0x80, 0xBF)]
      else if b = 0xE0 then Some [(0xA0, 0xBF), (0x80, 0xBF)]
      else if 0xE1 \<le> b \<and> b \<le> 0xEC then Some [(0x80, 0xBF), (0x80, 0xBF)]
      else if b = 0xED then Some [(0x80, 0x9F), (0x80, 0xBF)]
      else if 0xEE \<le> b \<and> b \<le> 0xEF then Some [(0x80, 0xBF), (0x80, 0xBF)]
      else if b = 0xF0 then Some [(0x90, 0xBF), (0x80, 0xBF), (0x80, 0xBF)]
      else if 0xF1 \<le> b \<and> b \<le> 0xF3 then Some [(0x80, 0xBF), (0x80, 0xBF), (0x80, 0xBF)]
      else if b = 0xF4 then Some [(0x80, 0x8F), (0x80, 0xBF), (0x80, 0xBF)]
      else None)"

fun in_ranges :: "(nat \<times> nat) list \<Rightarrow> string \<Rightarrow> bool" where
  "in_ranges [] cs = True"
| "in_ranges (r # rs) [] = False"
| "in_ranges (r # rs) (c # cs) =
     (fst r \<le> (of_char c :: nat) \<and> (of_char c :: nat) \<le> snd r \<and> in_ranges rs cs)"

definition utf8_tail :: "char \<Rightarrow> string \<Rightarrow> nat option" where
  "utf8_tail c cs =
     (case utf8_ranges (of_char c) of
        None \<Rightarrow> None
      | Some rs \<Rightarrow> if in_ranges rs cs then Some (length rs) else None)"

fun well_formed_utf8 :: "string \<Rightarrow> bool" where
  "well_formed_utf8 [] = True"
| "well_formed_utf8 (c # cs) =
     (if (of_char c :: nat) < 128 then well_formed_utf8 cs
      else (case utf8_tail c cs of
              None \<Rightarrow> False
            | Some n \<Rightarrow> well_formed_utf8 (drop n cs)))"

fun parse_string_body :: "string \<Rightarrow> (string \<times> string) option" where
  "parse_string_body [] = None"
| "parse_string_body (c # cs) =
     (if c = dquote then Some ([], cs)
      else if c = backslash then
        (case cs of
           [] \<Rightarrow> None
         | e # es \<Rightarrow>
             if e = CHR ''u'' then
               (case es of
                  h1 # h2 # h3 # h4 # rest \<Rightarrow>
                    (case (hex_val h1, hex_val h2, hex_val h3, hex_val h4) of
                       (Some a, Some b, Some c', Some d) \<Rightarrow>
                         cons_result (utf8_encode (4096 * a + 256 * b + 16 * c' + d))
                           (parse_string_body rest)
                     | _ \<Rightarrow> None)
                | _ \<Rightarrow> None)
             else
               (case unescape e of
                  None \<Rightarrow> None
                | Some b \<Rightarrow> cons_result [b] (parse_string_body es)))
      else if (of_char c :: nat) < 32 then None
      else if (of_char c :: nat) < 128 then cons_result [c] (parse_string_body cs)
      else
        (case utf8_tail c cs of
           None \<Rightarrow> None
         | Some n \<Rightarrow> cons_result (c # take n cs) (parse_string_body (drop n cs))))"

definition number_sign :: "string \<Rightarrow> string \<times> string" where
  "number_sign s =
     (case s of
        [] \<Rightarrow> ([], s)
      | c # cs \<Rightarrow> if c = CHR ''-'' then ([c], cs) else ([], s))"

definition number_int :: "string \<Rightarrow> (string \<times> string) option" where
  "number_int s =
     (case s of
        [] \<Rightarrow> None
      | d # ds \<Rightarrow>
          if \<not> is_digit d then None
          else if d = CHR ''0'' then Some ([d], ds)
          else Some (takeWhile is_digit s, dropWhile is_digit s))"

definition number_frac :: "string \<Rightarrow> (string \<times> string) option" where
  "number_frac s =
     (case s of
        [] \<Rightarrow> Some ([], s)
      | p # ps \<Rightarrow>
          if p = CHR ''.'' then
            (if takeWhile is_digit ps = [] then None
             else Some (p # takeWhile is_digit ps, dropWhile is_digit ps))
          else Some ([], s))"

definition number_exp :: "string \<Rightarrow> (string \<times> string) option" where
  "number_exp s =
     (case s of
        [] \<Rightarrow> Some ([], s)
      | e # es \<Rightarrow>
          if e = CHR ''e'' \<or> e = CHR ''E'' then
            (let (esign, ds) = (case es of
                                 [] \<Rightarrow> ([], es)
                               | x # xs \<Rightarrow>
                                   if x = CHR ''+'' \<or> x = CHR ''-'' then ([x], xs)
                                   else ([], es))
             in if takeWhile is_digit ds = [] then None
                else Some (e # esign @ takeWhile is_digit ds, dropWhile is_digit ds))
          else Some ([], s))"

definition parse_number :: "string \<Rightarrow> (string \<times> string) option" where
  "parse_number s =
     (let (sign, s1) = number_sign s
      in case number_int s1 of
           None \<Rightarrow> None
         | Some (ip, s2) \<Rightarrow>
             (case number_frac s2 of
                None \<Rightarrow> None
              | Some (fp, s3) \<Rightarrow>
                  (case number_exp s3 of
                     None \<Rightarrow> None
                   | Some (ep, s4) \<Rightarrow> Some (sign @ ip @ fp @ ep, s4))))"

fun parse_value :: "nat \<Rightarrow> string \<Rightarrow> (json \<times> string) option"
  and parse_elements :: "nat \<Rightarrow> string \<Rightarrow> (json list \<times> string) option"
  and parse_members :: "nat \<Rightarrow> string \<Rightarrow> ((string \<times> json) list \<times> string) option"
where
  "parse_value 0 s = None"
| "parse_value (Suc n) s =
     (case skip_ws s of
        [] \<Rightarrow> None
      | c # cs \<Rightarrow>
          if c = CHR ''{'' then
            (case skip_ws cs of
               [] \<Rightarrow> None
             | d # ds \<Rightarrow>
                 if d = CHR ''}'' then Some (JObject [], ds)
                 else (case parse_members n (d # ds) of
                         None \<Rightarrow> None
                       | Some (ms, rest) \<Rightarrow> Some (JObject ms, rest)))
          else if c = CHR ''['' then
            (case skip_ws cs of
               [] \<Rightarrow> None
             | d # ds \<Rightarrow>
                 if d = CHR '']'' then Some (JArray [], ds)
                 else (case parse_elements n (d # ds) of
                         None \<Rightarrow> None
                       | Some (vs, rest) \<Rightarrow> Some (JArray vs, rest)))
          else if c = dquote then
            (case parse_string_body cs of
               None \<Rightarrow> None
             | Some (str, rest) \<Rightarrow> Some (JString str, rest))
          else if take 4 (c # cs) = ''true'' then Some (JBool True, drop 4 (c # cs))
          else if take 5 (c # cs) = ''false'' then Some (JBool False, drop 5 (c # cs))
          else if take 4 (c # cs) = ''null'' then Some (JNull, drop 4 (c # cs))
          else (case parse_number (c # cs) of
                  None \<Rightarrow> None
                | Some (num, rest) \<Rightarrow> Some (JNumber num, rest)))"
| "parse_elements 0 s = None"
| "parse_elements (Suc n) s =
     (case parse_value n s of
        None \<Rightarrow> None
      | Some (v, rest) \<Rightarrow>
          (case skip_ws rest of
             [] \<Rightarrow> None
           | c # cs \<Rightarrow>
               if c = CHR '','' then
                 (case parse_elements n cs of
                    None \<Rightarrow> None
                  | Some (vs, rest') \<Rightarrow> Some (v # vs, rest'))
               else if c = CHR '']'' then Some ([v], cs)
               else None))"
| "parse_members 0 s = None"
| "parse_members (Suc n) s =
     (case skip_ws s of
        [] \<Rightarrow> None
      | q # cs \<Rightarrow>
          if q \<noteq> dquote then None
          else
            (case parse_string_body cs of
               None \<Rightarrow> None
             | Some (k, rest) \<Rightarrow>
                 (case skip_ws rest of
                    [] \<Rightarrow> None
                  | c # rest1 \<Rightarrow>
                      if c \<noteq> CHR '':'' then None
                      else
                        (case parse_value n rest1 of
                           None \<Rightarrow> None
                         | Some (v, rest2) \<Rightarrow>
                             (case skip_ws rest2 of
                                [] \<Rightarrow> None
                              | d # ds \<Rightarrow>
                                  if d = CHR '','' then
                                    (case parse_members n ds of
                                       None \<Rightarrow> None
                                     | Some (ms, rest') \<Rightarrow> Some ((k, v) # ms, rest'))
                                  else if d = CHR ''}'' then Some ([(k, v)], ds)
                                  else None)))))"

definition parse_json :: "string \<Rightarrow> json option" where
  "parse_json s =
     (case parse_value (Suc (length s)) s of
        None \<Rightarrow> None
      | Some (v, rest) \<Rightarrow> if skip_ws rest = [] then Some v else None)"

declare parse_value.simps [simp del] parse_elements.simps [simp del] parse_members.simps [simp del]

section \<open>Reference renderings and sample inputs\<close>

text \<open>
  The reference for "3-decimal-place truncation", from the words of the specification: the
  non-negative number \<open>m * 2 ^ e\<close> written as its integer part, a decimal point, and its
  first three decimal places.
\<close>

definition truncated3 :: "int \<Rightarrow> int \<Rightarrow> string" where
  "truncated3 m e =
     (let thousandths = nat (f64_trunc (m * 1000) e)
      in decimal_nat (thousandths div 1000) @ ''.'' @ pad_nat 3 (thousandths mod 1000))"

text \<open>The loop of \<open>appendJSONString\<close> appends, byte by byte, what \<open>escape_byte\<close> gives.\<close>

definition escape_byte :: "char \<Rightarrow> string" where
  "escape_byte r =
     (if r = dquote then [backslash, dquote]
      else if r = backslash then [backslash, backslash]
      else if r = newline then [backslash, CHR ''n'']
      else if r = carriage_return then [backslash, CHR ''r'']
      else if r = tab then [backslash, CHR ''t'']
      else [r])"

text \<open>Two clock readings used in the examples.\<close>

definition epoch :: Time where
  "epoch = \<lparr>unix_sec = 0, nsec = 0, zone_offset = 0\<rparr>"

definition sample_time :: Time where
  "sample_time = \<lparr>unix_sec = 1705763045, nsec = 123456789, zone_offset = 7200\<rparr>"

section \<open>What a JSON record must read back as\<close>

text \<open>
  A string is safe for the encoder when it is well-formed UTF-8 and each of its bytes is
  0x20 or more or is one of the three control characters that \<open>appendJSONString\<close> escapes.
  A Go string may hold any bytes, and the encoder copies the bytes from 0x80 on as they
  are, so a string that is not well-formed UTF-8 gives a record that is not a JSON text.
\<close>

definition json_safe :: "string \<Rightarrow> bool" where
  "json_safe s =
     (well_formed_utf8 s \<and>
      (\<forall>c \<in> set s. 32 \<le> (of_char c :: nat) \<or> c = newline \<or> c = carriage_return \<or> c = tab))"

text \<open>
  Strings the encoder copies without escaping, the timestamp and the level name: printable
  ASCII without the double quote and the backslash.
\<close>

definition json_plain :: "string \<Rightarrow> bool" where
  "json_plain s =
     (\<forall>c \<in> set s. 32 \<le> (of_char c :: nat) \<and> (of_char c :: nat) < 128
                   \<and> c \<noteq> dquote \<and> c \<noteq> backslash)"

text \<open>A number the encoder wrote is followed by a comma or by the closing brace.\<close>

definition closes_value :: "char \<Rightarrow> bool" where
  "closes_value c = (c = CHR '','' \<or> c = CHR ''}'')"

text \<open>
  What a value must read back as: a string as itself, an integer as the number with its
  standard decimal text, a boolean as the literal, a value of an unsupported type as the
  string \<open>unknown\<close>, and a floating-point value as a number, whose text is whatever the float
  renderer wrote. The statement below covers the values that \<open>json_exact\<close> admits: strings
  that are safe for the encoder, integers other than the least \<open>int64\<close>, booleans, values of
  an unsupported type, and the \<open>float64\<close> values that are finite and whose integer part fits
  an \<open>int64\<close> (\<open>float64_fits\<close>); for those the platform-dependent conversion is never used,
  so one choice of it serves to name the text.
\<close>

definition float64_fits :: "float64 \<Rightarrow> bool" where
  "float64_fits f =
     (case f of
        Finite m e \<Rightarrow> \<bar>m\<bar> < 2 ^ 53 \<and> - 1074 \<le> e \<and> \<bar>f64_trunc m e\<bar> < 2 ^ 63
      | _ \<Rightarrow> False)"

definition float_text :: "float64 \<Rightarrow> string" where
  "float_text f = (case appendJSONFloat amd64_cvt [] f of Inl e \<Rightarrow> [] | Inr t \<Rightarrow> t)"

definition json_of_value :: "go_value \<Rightarrow> json" where
  "json_of_value v =
     (case v of
        VString s \<Rightarrow> JString s
      | VInt i \<Rightarrow> JNumber (decimal_int (sint i))
      | VInt64 i \<Rightarrow> JNumber (decimal_int (sint i))
      | VFloat64 f \<Rightarrow> JNumber (float_text f)
      | VBool b \<Rightarrow> JBool b
      | VOther \<Rightarrow> JString ''unknown'')"

definition json_exact :: "go_value \<Rightarrow> bool" where
  "json_exact v =
     (case v of
        VString s \<Rightarrow> json_safe s
      | VInt i \<Rightarrow> i \<noteq> MinInt64
      | VInt64 i \<Rightarrow> i \<noteq> MinInt64
      | VFloat64 f \<Rightarrow> float64_fits f
      | VBool b \<Rightarrow> True
      | VOther \<Rightarrow> True)"

definition value_text :: "go_value \<Rightarrow> string" where
  "value_text v =
     (case v of
        VString s \<Rightarrow> dquote # concat (map escape_byte s) @ [dquote]
      | VInt i \<Rightarrow> decimal_int (sint i)
      | VInt64 i \<Rightarrow> decimal_int (sint i)
      | VFloat64 f \<Rightarrow> float_text f
      | VBool b \<Rightarrow> (if b then ''true'' else ''false'')
      | VOther \<Rightarrow> dquote # ''unknown'' @ [dquote])"

text \<open>
  The numbers the encoder writes: an optional minus sign, the decimal text of a natural
  number, and possibly a point and the decimal text of another.
\<close>

definition number_shape :: "string \<Rightarrow> bool" where
  "number_shape t =
     (\<exists>sg n frac. t = sg @ decimal_nat n @ frac
        \<and> (sg = [] \<or> sg = [CHR ''-''])
        \<and> (frac = [] \<or> (\<exists>n'. frac = CHR ''.'' # decimal_nat n')))"

text \<open>
  A member is a key, the text of its value, and the value that text must read back as;
  \<open>reads_as\<close> says that the text does read back so, whatever comes after it.
\<close>

type_synonym member = "string \<times> string \<times> json"

definition member_text :: "member \<Rightarrow> string" where
  "member_text m =
     dquote # concat (map escape_byte (fst m)) @ [dquote, CHR '':''] @ fst (snd m)"

definition reads_as :: "member \<Rightarrow> bool" where
  "reads_as m =
     (json_safe (fst m) \<and>
      (\<forall>n c rest. closes_value c \<longrightarrow>
         parse_value (Suc n) (fst (snd m) @ c # rest) = Some (snd (snd m), c # rest)))"

definition member_json :: "member \<Rightarrow> string \<times> json" where
  "member_json m = (fst m, snd (snd m))"

text \<open>The members a record is made of: the three string members and one per field.\<close>

definition field_member :: "Field \<Rightarrow> member" where
  "field_member f = (Key f, value_text (Value f), json_of_value (Value f))"

definition string_member :: "string \<Rightarrow> string \<Rightarrow> member" where
  "string_member k s = (k, dquote # concat (map escape_byte s) @ [dquote], JString s)"

section \<open>Properties of appendInt\<close>

subsection \<open>Signed 64-bit arithmetic\<close>

lemma sint_word_of_int_64:
  "- (2 ^ 63) \<le> k \<Longrightarrow> k < 2 ^ 63 \<Longrightarrow> sint (word_of_int k :: int64) = k"
  by (simp add: signed_of_int signed_take_bit_int_eq_self)

lemma sint_bounds_64: "- (2 ^ 63) \<le> sint (w :: int64)" "sint (w :: int64) < 2 ^ 63"
  using sint_ge [of w] sint_lt [of w] by simp_all

lemma sint_quo10:
  assumes "0 <s i"
  shows "sint (int64_quo i 10) = sint i div 10"
proof -
  have p: "0 < sint i" using assms by (simp add: word_sless_alt)
  have b: "sint i < 2 ^ 63" by (rule sint_bounds_64)
  have "sint i sdiv 10 = sint i div 10" using p
    by (simp add: signed_divide_int_def sgn_if)
  moreover have "sint (word_of_int (sint i div 10) :: int64) = sint i div 10"
    using p b by (intro sint_word_of_int_64) auto
  ultimately show ?thesis by (simp add: int64_quo_def)
qed

lemma byte_rem10:
  assumes "0 <s i"
  shows "byte_of_int64 (48 + int64_rem i 10) = digit_char (nat (sint i) mod 10)"
proof -
  have p: "0 < sint i" using assms by (simp add: word_sless_alt)
  have "sint i smod 10 = sint i mod 10" using p
    by (simp add: signed_modulo_int_def sgn_if)
  then have "int64_rem i 10 = word_of_int (sint i mod 10)" by (simp add: int64_rem_def)
  then have "48 + int64_rem i 10 = (word_of_int (48 + sint i mod 10) :: int64)" by simp
  also have "48 + sint i mod 10 = int (48 + nat (sint i) mod 10)"
    using p by (simp add: of_nat_mod)
  finally have "unat (48 + int64_rem i 10) = (48 + nat (sint i) mod 10) mod 2 ^ 64"
    by (simp only: of_int_of_nat_eq unat_of_nat len_num0 len_bit0 len_num1 mult_1_right) simp
  moreover have "48 + nat (sint i) mod 10 < (2::nat) ^ 64"
    by (rule less_le_trans [of _ 58]) simp_all
  ultimately have "unat (48 + int64_rem i 10) = 48 + nat (sint i) mod 10" by simp
  then show ?thesis by (simp add: byte_of_int64_def digit_char_def)
qed

subsection \<open>The reference formatting is the inverse of positional reading\<close>

lemma digit_char_simps:
  "digit_char 0 = CHR ''0''" "digit_char 1 = CHR ''1''" "digit_char 2 = CHR ''2''"
  "digit_char 3 = CHR ''3''" "digit_char 4 = CHR ''4''" "digit_char 5 = CHR ''5''"
  "digit_char 6 = CHR ''6''" "digit_char 7 = CHR ''7''" "digit_char 8 = CHR ''8''"
  "digit_char 9 = CHR ''9''"
  by (simp_all add: digit_char_def char_of_def bit_0)

lemma digit_char_Suc0: "digit_char (Suc 0) = CHR ''1''"
  using digit_char_simps(2) by simp

lemma digit_char_0: "digit_char 0 = CHR ''0''"
  by (rule digit_char_simps)

lemma is_digit_digit_char: "d < 10 \<Longrightarrow> is_digit (digit_char d)"
  by (simp add: is_digit_def digit_char_def)

lemma digit_val_digit_char: "d < 10 \<Longrightarrow> digit_val (digit_char d) = d"
  by (simp add: digit_val_def digit_char_def)

lemma decimal_nat_digits: "\<forall>c \<in> set (decimal_nat n). is_digit c"
proof (induction n rule: decimal_nat.induct)
  case (1 n)
  show ?case
  proof (cases "n < 10")
    case True
    then show ?thesis by (subst decimal_nat.simps) (simp add: is_digit_digit_char)
  next
    case False
    then show ?thesis using "1.IH"
      by (subst decimal_nat.simps) (simp add: is_digit_digit_char)
  qed
qed

lemma decimal_nat_nonempty: "decimal_nat n \<noteq> []"
  by (subst decimal_nat.simps) simp

lemma parse_decimal_snoc: "parse_decimal (s @ [c]) = 10 * parse_decimal s + digit_val c"
  by (simp add: parse_decimal_def)

lemma parse_decimal_decimal_nat: "parse_decimal (decimal_nat n) = n"
proof (induction n rule: decimal_nat.induct)
  case (1 n)
  show ?case
  proof (cases "n < 10")
    case True
    then show ?thesis
      by (subst decimal_nat.simps) (simp add: parse_decimal_def digit_val_digit_char)
  next
    case False
    then have "parse_decimal (decimal_nat n) = 10 * (n div 10) + n mod 10"
      using "1.IH" by (subst decimal_nat.simps) (simp add: parse_decimal_snoc digit_val_digit_char)
    then show ?thesis by simp
  qed
qed

lemma decimal_nat_no_leading_zero: "0 < n \<Longrightarrow> hd (decimal_nat n) \<noteq> CHR ''0''"
proof (induction n rule: decimal_nat.induct)
  case (1 n)
  show ?case
  proof (cases "n < 10")
    case True
    have "digit_char n \<noteq> digit_char 0"
      using True "1.prems" by (simp add: digit_char_def char_of_eq_iff take_bit_eq_mod)
    then show ?thesis using True by (subst decimal_nat.simps) (simp add: digit_char_0)
  next
    case False
    then have "hd (decimal_nat (n div 10)) \<noteq> CHR ''0''" using "1.IH" by simp
    then show ?thesis using False decimal_nat_nonempty [of "n div 10"]
      by (subst decimal_nat.simps) simp
  qed
qed

subsection \<open>What the loop computes\<close>

lemma appendInt_loop_digits:
  assumes "0 <s i" and "sint i < 10 ^ idx" and "idx \<le> length tmp"
  shows "\<exists>tmp' idx'. appendInt_loop i tmp idx = Inr (tmp', idx')
           \<and> drop idx' tmp' = decimal_nat (nat (sint i)) @ drop idx tmp
           \<and> length tmp' = length tmp \<and> idx' \<le> idx"
  using assms
proof (induction i tmp idx rule: appendInt_loop.induct)
  case (1 i tmp idx)
  let ?n = "nat (sint i)"
  let ?d = "byte_of_int64 (48 + int64_rem i 10)"
  let ?tmp = "tmp[idx - 1 := ?d]"
  let ?q = "int64_quo i 10"
  have pos: "0 < sint i" using "1.prems"(1) by (simp add: word_sless_alt)
  have idx: "idx \<noteq> 0" using "1.prems"(2) pos by (cases idx) auto
  have q: "sint ?q = sint i div 10" using "1.prems"(1) by (rule sint_quo10)
  have d: "?d = digit_char (?n mod 10)" using "1.prems"(1) by (rule byte_rem10)
  have unfold: "appendInt_loop i tmp idx = appendInt_loop ?q ?tmp (idx - 1)"
    using "1.prems"(1) idx by (subst appendInt_loop.simps) simp
  obtain k where k: "idx = Suc k" using idx by (cases idx) auto
  have dropd: "drop (idx - 1) ?tmp = ?d # drop idx tmp"
    using "1.prems"(3) by (simp add: k Cons_nth_drop_Suc [symmetric])
  show ?case
  proof (cases "0 <s ?q")
    case False
    then have small: "?n < 10" using q pos by (simp add: word_sless_alt)
    have "appendInt_loop ?q ?tmp (idx - 1) = Inr (?tmp, idx - 1)"
      using False by (subst appendInt_loop.simps) simp
    moreover have "decimal_nat ?n = [?d]"
      using small d by (subst decimal_nat.simps) simp
    ultimately show ?thesis using unfold dropd by simp
  next
    case True
    then have big: "\<not> ?n < 10" using q by (simp add: word_sless_alt)
    have bound: "sint ?q < 10 ^ (idx - 1)"
    proof -
      define y :: int where "y = 10 ^ k"
      have "sint i < 10 * y" using "1.prems"(2) by (simp add: k y_def)
      then have "sint i div 10 < y" by arith
      then show ?thesis by (simp add: q k y_def)
    qed
    have len': "idx - 1 \<le> length ?tmp" using "1.prems"(3) by simp
    from "1.IH" [OF "1.prems"(1) idx True bound len']
    obtain tmp' idx' where r: "appendInt_loop ?q ?tmp (idx - 1) = Inr (tmp', idx')"
      and dr: "drop idx' tmp' = decimal_nat (nat (sint ?q)) @ drop (idx - 1) ?tmp"
      and len: "length tmp' = length ?tmp" and le: "idx' \<le> idx - 1"
      by auto
    have "nat (sint ?q) = ?n div 10" using q pos by (simp add: nat_div_distrib)
    then have "decimal_nat ?n = decimal_nat (nat (sint ?q)) @ [?d]"
      using big d by (subst decimal_nat.simps) simp
    then show ?thesis using unfold r dr len le dropd by simp
  qed
qed

lemma appendInt_pos:
  assumes "0 <s i"
  shows "appendInt buf i = Inr (buf @ decimal_nat (nat (sint i)))"
proof -
  have "sint i < 2 ^ 63" by (rule sint_bounds_64)
  also have "(2::int) ^ 63 < 10 ^ 20" by simp
  finally have b: "sint i < 10 ^ 20" .
  from appendInt_loop_digits [OF assms b, of "replicate 20 (CHR 0x00)"]
  obtain tmp' idx' where "appendInt_loop i (replicate 20 (CHR 0x00)) 20 = Inr (tmp', idx')"
    and "drop idx' tmp' = decimal_nat (nat (sint i))"
    by auto
  moreover have "i \<noteq> 0" "\<not> i <s 0" using assms by (auto simp: word_sless_alt)
  ultimately show ?thesis by (simp add: appendInt_def)
qed

lemma sint_neg_64:
  assumes "i \<noteq> MinInt64"
  shows "sint (- i) = - sint i"
proof -
  have "sint i \<noteq> sint (- 9223372036854775808 :: int64)"
    using assms signed_word_eqI [of i "- 9223372036854775808", where ?'a = int]
    unfolding MinInt64_def by blast
  then have "sint i \<noteq> - (2 ^ 63)" by simp
  then have lo: "- (2 ^ 63) \<le> - sint i" "- sint i < 2 ^ 63"
    using sint_bounds_64 [of i] by simp_all
  have "- i = word_of_int (- sint i)" by simp
  then show ?thesis using sint_word_of_int_64 [OF lo] by simp
qed

text \<open>
  Everywhere except at the least 64-bit value the encoder appends the reference decimal
  text of the number, and it does not panic: 19 digits are the most a positive \<open>int64\<close>
  has, and \<open>tmp\<close> holds 20.
\<close>

lemma appendInt_decimal:
  assumes "i \<noteq> MinInt64"
  shows "appendInt buf i = Inr (buf @ decimal_int (sint i))"
proof -
  consider "i = 0" | "0 <s i" | "i <s 0"
    using signed.less_linear [of i 0] by auto
  then show ?thesis
  proof cases
    case 1
    then show ?thesis
      by (simp add: appendInt_def decimal_int_def decimal_nat.simps digit_char_0)
  next
    case 2
    then have "\<not> sint i < 0" by (simp add: word_sless_alt)
    then show ?thesis using appendInt_pos [OF 2] by (simp add: decimal_int_def)
  next
    case 3
    have neg: "sint (- i) = - sint i" using assms by (rule sint_neg_64)
    have lt: "sint i < 0" using 3 by (simp add: word_sless_alt)
    then have p: "0 <s - i" using neg by (simp add: word_sless_alt)
    have "i \<noteq> 0" using 3 by auto
    then have "appendInt buf i = appendInt (buf @ [CHR ''-'']) (- i)"
      using 3 p by (auto simp add: appendInt_def word_sless_alt)
    then show ?thesis using appendInt_pos [OF p] neg lt by (simp add: decimal_int_def)
  qed
qed

lemma appendInt_at_min: "appendInt buf MinInt64 = Inr (buf @ ''-'')"
proof -
  have "appendInt_loop 9223372036854775808 (replicate 20 (CHR 0x00)) 20
          = Inr (replicate 20 (CHR 0x00), 20)"
    by (subst appendInt_loop.simps) (simp add: word_sless_alt)
  then show ?thesis by (simp add: appendInt_def MinInt64_def word_sless_alt)
qed

lemma appendInt_never_panics: "\<exists>out. appendInt buf i = Inr out"
  using appendInt_decimal [of i buf] appendInt_at_min [of buf] by (cases "i = MinInt64") auto

text \<open>
  Claim C1: for every signed 64-bit value, the extreme values included, \<open>appendInt\<close> appends
  the standard base-10 text of the value. The code does so for every value but the least
  one: at \<open>-9223372036854775808\<close> the negation \<open>i = -i\<close> wraps around to the same negative
  value, the loop \<open>for i > 0\<close> is not entered, and the output is the bare minus sign, where
  the standard text is \<open>-9223372036854775808\<close>.
\<close>

theorem appendInt_MinInt64:
  "appendInt buf (- 9223372036854775808) = Inr (buf @ ''-'')
   \<and> decimal_int (sint (- 9223372036854775808 :: int64)) = ''-9223372036854775808''"
proof
  have "appendInt_loop 9223372036854775808 (replicate 20 (CHR 0x00)) 20
          = Inr (replicate 20 (CHR 0x00), 20)"
    by (subst appendInt_loop.simps) (simp add: word_sless_alt)
  then show "appendInt buf (- 9223372036854775808) = Inr (buf @ ''-'')"
    by (simp add: appendInt_def word_sless_alt)
next
  show "decimal_int (sint (- 9223372036854775808 :: int64)) = ''-9223372036854775808''"
    by (simp add: decimal_int_def decimal_nat.simps digit_char_simps)
qed

section \<open>Properties of the value encoders\<close>

subsection \<open>Floating point\<close>

lemma bit_length_le: "n < 2 ^ k \<Longrightarrow> bit_length n \<le> k"
proof (induction n arbitrary: k rule: bit_length.induct)
  case (1 n)
  show ?case
  proof (cases "n = 0")
    case True
    then show ?thesis by (subst bit_length.simps) simp
  next
    case False
    then obtain j where j: "k = Suc j" using "1.prems" by (cases k) auto
    then have "n div 2 < 2 ^ j" using "1.prems" by auto
    then have "bit_length (n div 2) \<le> j" using "1.IH" [OF False] by simp
    then show ?thesis using False j by (subst bit_length.simps) simp
  qed
qed

text \<open>A number that already has at most 53 significant bits is not changed by rounding.\<close>

lemma round_float64_exact:
  assumes "\<bar>m\<bar> < 2 ^ 53" and "- 1074 \<le> e" and "e \<le> 0"
  shows "round_float64 m e = Finite m e"
proof -
  have small: "nat \<bar>m\<bar> < 2 ^ 53" using assms(1) by (simp add: nat_less_iff)
  then have "bit_length (nat \<bar>m\<bar>) \<le> 53" by (rule bit_length_le)
  then have k: "max (int (bit_length (nat \<bar>m\<bar>)) - 53) (- 1074 - e) \<le> 0"
    using assms(2) by simp
  have "nat \<bar>m\<bar> * 2 ^ nat e < 2 ^ 1024"
  proof -
    have "nat e = 0" using assms(3) by simp
    moreover have "(2::nat) ^ 53 < 2 ^ 1024" by simp
    ultimately show ?thesis using small by simp
  qed
  then show ?thesis using k unfolding round_float64_def Let_def by simp
qed

lemmas render_digits = word_sless_alt decimal_nat.simps digit_char_simps digit_char_Suc0

lemma appendInt_3: "appendInt buf 3 = Inr (buf @ ''3'')"
  using appendInt_pos [of 3 buf] by (simp add: render_digits)

text \<open>
  The \<open>float64\<close> nearest to 3.14159 is \<open>3537115888337719 * 2 ^ - 50\<close>. Its fraction times
  1000 is rounded to \<open>4981755244057719 * 2 ^ - 45\<close>, a little below 141.59, and the encoder
  writes \<open>3.141\<close>, as the scenario of the specification says.
\<close>

lemma appendJSONFloat_3_14159:
  "appendJSONFloat cvt buf (Finite 3537115888337719 (- 50)) = Inr (buf @ ''3.141'')"
proof -
  have i: "int64_of_float64 cvt (Finite 3537115888337719 (- 50)) = 3"
    by (simp add: int64_of_float64_def f64_trunc_def)
  have c: "float64_of_int64 3 = Finite 3 0"
    by (simp add: float64_of_int64_def round_float64_exact)
  have s: "f64_sub (Finite 3537115888337719 (- 50)) (Finite 3 0) = Finite 159416167809847 (- 50)"
    by (simp add: f64_sub_def round_float64_exact)
  have bl: "bit_length 159416167809847000 = 58"
    by (simp add: bit_length.simps)
  have m: "f64_mul (Finite 159416167809847 (- 50)) (Finite 1000 0) = Finite 4981755244057719 (- 45)"
    unfolding f64_mul_def round_float64_def by (simp add: bl)
  have t: "int64_of_float64 cvt (Finite 4981755244057719 (- 45)) = 141"
    by (simp add: int64_of_float64_def f64_trunc_def)
  have b: "appendInt (buf @ ''3.'') 141 = Inr (buf @ ''3.141'')"
    using appendInt_pos [of 141 "buf @ ''3.''"] by (simp add: render_digits)
  show ?thesis
    by (simp add: appendJSONFloat_def f64_is_zero_def f64_lt_zero_def f64_gt_zero_def
        i c s m t appendInt_3 b)
qed

text \<open>
  Claim C6: the float renderer writes the integer part, and for a positive fraction a
  decimal point and the fraction cut to three decimal places; 3.14159 gives \<open>3.141\<close>. The
  code writes the integer \<open>int64(fractional * 1000)\<close> without padding it to three digits, so
  a fraction below 0.1 loses its leading zeros. At \<open>3.0625 = 49 * 2 ^ - 4\<close> every step is
  exact: the fraction is 0.0625, times 1000 is 62.5, and the output is \<open>3.62\<close>, where
  truncation to three places is \<open>3.062\<close>.
\<close>

theorem appendJSONFloat_drops_leading_zeros:
  "appendJSONFloat cvt buf (Finite 49 (- 4)) = Inr (buf @ ''3.62'')
   \<and> truncated3 49 (- 4) = ''3.062''"
proof
  have i: "int64_of_float64 cvt (Finite 49 (- 4)) = 3"
    by (simp add: int64_of_float64_def f64_trunc_def)
  have c: "float64_of_int64 3 = Finite 3 0"
    by (simp add: float64_of_int64_def round_float64_exact)
  have s: "f64_sub (Finite 49 (- 4)) (Finite 3 0) = Finite 1 (- 4)"
    by (simp add: f64_sub_def round_float64_exact)
  have m: "f64_mul (Finite 1 (- 4)) (Finite 1000 0) = Finite 1000 (- 4)"
    by (simp add: f64_mul_def round_float64_exact)
  have t: "int64_of_float64 cvt (Finite 1000 (- 4)) = 62"
    by (simp add: int64_of_float64_def f64_trunc_def)
  have b: "appendInt (buf @ ''3.'') 62 = Inr (buf @ ''3.62'')"
    using appendInt_pos [of 62 "buf @ ''3.''"] by (simp add: render_digits)
  show "appendJSONFloat cvt buf (Finite 49 (- 4)) = Inr (buf @ ''3.62'')"
    by (simp add: appendJSONFloat_def f64_is_zero_def f64_lt_zero_def f64_gt_zero_def
        i c s m t appendInt_3 b)
next
  have "f64_trunc (49 * 1000) (- 4) = 3062" by (simp add: f64_trunc_def)
  then show "truncated3 49 (- 4) = ''3.062''"
    by (simp add: truncated3_def pad_nat_def render_digits)
qed

lemma appendJSONFloat_never_panics: "\<exists>out. appendJSONFloat cvt buf f = Inr out"
proof (cases "f64_is_zero f")
  case True
  then show ?thesis by (simp add: appendJSONFloat_def)
next
  case False
  obtain buf1 f1 where p: "(if f64_lt_zero f then (buf @ [CHR ''-''], f64_neg f) else (buf, f)) = (buf1, f1)"
    by (cases "f64_lt_zero f") auto
  obtain buf2 where b2: "appendInt buf1 (int64_of_float64 cvt f1) = Inr buf2"
    using appendInt_never_panics by blast
  obtain buf3 where b3:
    "appendInt (buf2 @ [CHR ''.''])
       (int64_of_float64 cvt
         (f64_mul (f64_sub f1 (float64_of_int64 (int64_of_float64 cvt f1))) (Finite 1000 0)))
     = Inr buf3"
    using appendInt_never_panics by blast
  show ?thesis using False p b2 b3 by (simp add: appendJSONFloat_def Let_def)
qed

subsection \<open>Finite numbers whose integer part fits\<close>

lemma less_two_power_bit_length: "n < 2 ^ bit_length n"
proof (induction n rule: bit_length.induct)
  case (1 n)
  show ?case
  proof (cases "n = 0")
    case True
    then show ?thesis by simp
  next
    case False
    then have "n div 2 < 2 ^ bit_length (n div 2)" using "1.IH" by simp
    then have "n < 2 * 2 ^ bit_length (n div 2)" by auto
    then show ?thesis using False by (subst bit_length.simps) simp
  qed
qed

lemma bit_length_le_imp_less:
  assumes "bit_length n \<le> k"
  shows "n < 2 ^ k"
proof -
  have "(2::nat) ^ bit_length n \<le> 2 ^ k" using assms by (intro power_increasing) simp_all
  then show ?thesis using less_two_power_bit_length [of n] by (rule less_le_trans [rotated])
qed

lemma bit_length_0: "bit_length 0 = 0"
  by (simp add: bit_length.simps)

lemma round_float64_zero: "0 \<le> k \<Longrightarrow> round_float64 0 k = Finite 0 k"
  by (simp add: round_float64_def bit_length_0)

text \<open>Rounding a whole number that has at most 53 significant bits before its trailing zeros.\<close>

lemma round_float64_shifted:
  assumes "0 < a" and "a < 2 ^ 53" and "int a * 2 ^ e < 2 ^ 63"
  shows "\<exists>q k. round_float64 (int a * 2 ^ e) 0 = Finite q (int k) \<and> k \<le> e
               \<and> q * 2 ^ k = int a * 2 ^ e"
proof -
  let ?M = "a * 2 ^ e"
  have nM: "nat \<bar>int a * 2 ^ e\<bar> = ?M"
    by (simp add: nat_mult_distrib nat_power_eq abs_mult)
  have small: "?M < 2 ^ 1024"
  proof -
    have "int ?M < 2 ^ 63" using assms(3) by simp
    then have "?M < 2 ^ 63" by (metis of_nat_less_iff of_nat_numeral of_nat_power)
    also have "(2::nat) ^ 63 < 2 ^ 1024" by simp
    finally show ?thesis .
  qed
  have blM: "bit_length ?M \<le> 53 + e"
  proof (rule bit_length_le)
    have "a * 2 ^ e < 2 ^ 53 * 2 ^ e" using assms(2) by simp
    then show "a * 2 ^ e < 2 ^ (53 + e)" by (simp add: power_add)
  qed
  show ?thesis
  proof (cases "bit_length ?M \<le> 53")
    case True
    then have "max (int (bit_length ?M) - 53) (- 1074 - 0) \<le> 0" by simp
    then have "round_float64 (int a * 2 ^ e) 0 = Finite (int a * 2 ^ e) 0"
      using small unfolding round_float64_def Let_def nM by simp
    then show ?thesis by (intro exI [of _ "int a * 2 ^ e"] exI [of _ 0]) simp
  next
    case False
    define k where "k = bit_length ?M - 53"
    have kpos: "0 < k" and kle: "k \<le> e" using False blM by (simp_all add: k_def)
    have mx: "max (int (bit_length ?M) - 53) (- 1074 - 0) = int k"
      using False by (simp add: k_def)
    have split: "?M = (a * 2 ^ (e - k)) * 2 ^ k"
      using kle by (simp add: power_add [symmetric])
    have q: "?M div 2 ^ k = a * 2 ^ (e - k)" by (subst split) simp
    have r: "?M mod 2 ^ k = 0" by (subst split) simp
    have half: "(0::nat) < 2 ^ (k - 1)" by simp
    have "round_float64 (int a * 2 ^ e) 0 = Finite (int (a * 2 ^ (e - k))) (int k)"
      unfolding round_float64_def Let_def nM mx
      using kpos q r half small split assms(1)
      by (simp add: sgn_mult)
    moreover have "int (a * 2 ^ (e - k)) * 2 ^ k = int a * 2 ^ e"
      using kle by (simp add: power_add [symmetric])
    ultimately show ?thesis using kle by blast
  qed
qed

text \<open>Rounding a product below \<open>2 ^ 63\<close> with a negative exponent gives a finite number that fits.\<close>

lemma round_float64_small:
  assumes "0 < M" and "M < 2 ^ 63" and "- 1074 \<le> e" and "e < 0"
  shows "\<exists>q k. round_float64 (int M) e = Finite (int q) k \<and> q \<le> 2 ^ 53 \<and> k < 10"
proof -
  have nM: "nat \<bar>int M\<bar> = M" by simp
  have bl: "bit_length M \<le> 63" using assms(2) by (rule bit_length_le)
  show ?thesis
  proof (cases "bit_length M \<le> 53")
    case True
    then have "max (int (bit_length M) - 53) (- 1074 - e) \<le> 0" using assms(3) by simp
    then have "round_float64 (int M) e = Finite (int M) e"
      using assms(4) unfolding round_float64_def Let_def nM by simp
    moreover have "M \<le> 2 ^ 53" using bit_length_le_imp_less [OF True] by simp
    ultimately show ?thesis using assms(4) by (intro exI [of _ M] exI [of _ e]) simp
  next
    case False
    define k where "k = bit_length M - 53"
    have kpos: "0 < k" and kle: "k \<le> 10" using False bl by (simp_all add: k_def)
    have mx: "max (int (bit_length M) - 53) (- 1074 - e) = int k"
      using False assms(3) by (simp add: k_def)
    define q where "q = M div 2 ^ k"
    define q' where "q' = (if 2 ^ (k - 1) < M mod 2 ^ k \<or> (M mod 2 ^ k = 2 ^ (k - 1) \<and> odd q)
                          then q + 1 else q)"
    have "M < 2 ^ (53 + k)"
      using bit_length_le_imp_less [of M "53 + k"] False by (simp add: k_def)
    then have "M < 2 ^ 53 * 2 ^ k" by (simp add: power_add)
    then have "q < 2 ^ 53" unfolding q_def by (simp add: less_mult_imp_div_less)
    then have q'le: "q' \<le> 2 ^ 53" by (simp add: q'_def)
    have e': "e + int k < 10" using assms(4) kle by simp
    have nov: "\<not> (0 \<le> e + int k \<and> 2 ^ 1024 \<le> q' * 2 ^ nat (e + int k))"
    proof -
      have "nat (e + int k) \<le> 9" using e' by simp
      then have "(2::nat) ^ nat (e + int k) \<le> 2 ^ 9" by (intro power_increasing) simp_all
      then have "q' * 2 ^ nat (e + int k) \<le> 2 ^ 53 * 2 ^ 9"
        using q'le by (rule mult_le_mono [rotated])
      also have "\<dots> < (2::nat) ^ 1024" by simp
      finally show ?thesis by simp
    qed
    have nk: "\<not> int k \<le> 0" using kpos by simp
    have unfold: "round_float64 (int M) e
        = (if 0 \<le> e + int k \<and> 2 ^ 1024 \<le> q' * 2 ^ nat (e + int k)
           then (if int M < 0 then NegInf else PosInf)
           else Finite (sgn (int M) * int q') (e + int k))"
      unfolding round_float64_def Let_def nM mx q'_def q_def nat_int
      using nk by (simp only: if_False)
    have "sgn (int M) = 1" using assms(1) by simp
    then have "round_float64 (int M) e = Finite (int q') (e + int k)"
      using nov by (simp only: unfold if_False mult_1)
    then show ?thesis using q'le e' by blast
  qed
qed

lemma appendInt_nonneg:
  assumes "0 \<le> t" and "t < 2 ^ 63"
  shows "appendInt b (word_of_int t :: int64) = Inr (b @ decimal_nat (nat t))"
proof -
  have s: "sint (word_of_int t :: int64) = t"
    using assms by (intro sint_word_of_int_64) simp_all
  have "sint MinInt64 < 0" by (simp add: MinInt64_def)
  then have "(word_of_int t :: int64) \<noteq> MinInt64" using s assms(1) by auto
  then have "appendInt b (word_of_int t :: int64) = Inr (b @ decimal_int t)"
    using appendInt_decimal [of "word_of_int t" b] s by simp
  then show ?thesis using assms(1) by (simp add: decimal_int_def)
qed

lemma int64_of_float64_fits:
  assumes "0 \<le> f64_trunc m e" and "f64_trunc m e < 2 ^ 63"
  shows "int64_of_float64 cvt (Finite m e) = word_of_int (f64_trunc m e)"
proof -
  have "- (2 ^ 63) \<le> f64_trunc m e" using assms(1) by (rule order_trans [rotated]) simp
  then show ?thesis using assms(2) unfolding int64_of_float64_def Let_def by simp
qed

lemma appendInt_of_float64:
  assumes "0 \<le> f64_trunc m e" and "f64_trunc m e < 2 ^ 63"
  shows "appendInt b (int64_of_float64 cvt (Finite m e)) = Inr (b @ decimal_nat (nat (f64_trunc m e)))"
  using appendInt_nonneg [OF assms, of b] by (simp only: int64_of_float64_fits [OF assms])

lemma fraction_of_whole:
  assumes "0 < a" and "a < 2 ^ 53" and "0 \<le> e" and "int a * 2 ^ nat e < 2 ^ 63"
  shows "\<not> f64_gt_zero (f64_sub (Finite (int a) e)
             (float64_of_int64 (int64_of_float64 cvt (Finite (int a) e))))"
proof -
  let ?t = "int a * 2 ^ nat e"
  have tr: "f64_trunc (int a) e = ?t" using assms(3) by (simp add: f64_trunc_def)
  have nn: "0 \<le> ?t" by simp
  have conv: "int64_of_float64 cvt (Finite (int a) e) = word_of_int ?t"
    using int64_of_float64_fits [of "int a" e cvt] nn assms(4) by (simp only: tr)
  have lo: "- (2 ^ 63) \<le> ?t" using nn by (rule order_trans [rotated]) simp
  have "sint (word_of_int ?t :: int64) = ?t"
    using lo assms(4) by (rule sint_word_of_int_64)
  then have rt: "float64_of_int64 (int64_of_float64 cvt (Finite (int a) e)) = round_float64 ?t 0"
    by (simp only: conv float64_of_int64_def)
  obtain q k where r: "round_float64 ?t 0 = Finite q (int k)" and k: "k \<le> nat e"
    and v: "q * 2 ^ k = ?t"
    using round_float64_shifted [OF assms(1,2,4)] by blast
  have "q * 2 ^ k = (int a * 2 ^ (nat e - k)) * 2 ^ k"
    using k v by (simp add: power_add [symmetric])
  then have q: "q = int a * 2 ^ (nat e - k)" by simp
  have mn: "min e (int k) = int k" using k assms(3) by simp
  have ex: "nat (e - int k) = nat e - k" using k by simp
  have "f64_sub (Finite (int a) e) (Finite q (int k)) = round_float64 0 (int k)"
    by (simp add: f64_sub_def Let_def mn ex q)
  then have "f64_sub (Finite (int a) e) (Finite q (int k)) = Finite 0 (int k)"
    by (simp add: round_float64_zero)
  then show ?thesis by (simp add: rt r f64_gt_zero_def)
qed

lemma fraction_of_fractional:
  assumes "0 < a" and "a < 2 ^ 53" and "e < 0" and "- 1074 \<le> e"
  shows "f64_sub (Finite (int a) e) (float64_of_int64 (int64_of_float64 cvt (Finite (int a) e)))
         = Finite (int (a mod 2 ^ nat (- e))) e"
proof -
  let ?D = "(2::nat) ^ nat (- e)"
  let ?t = "int (a div ?D)"
  have tr: "f64_trunc (int a) e = ?t"
    using assms(1,3) by (simp add: f64_trunc_def zdiv_int)
  have lt: "a div ?D < 2 ^ 53" using assms(2) by (meson div_le_dividend le_less_trans)
  have lt63: "?t < 2 ^ 63"
  proof -
    have "a div ?D < 2 ^ 63" using lt by (rule less_trans) simp
    then show ?thesis by (metis of_nat_less_iff of_nat_numeral of_nat_power)
  qed
  have conv: "int64_of_float64 cvt (Finite (int a) e) = word_of_int ?t"
    using int64_of_float64_fits [of "int a" e cvt] lt63 by (simp only: tr)
  have "sint (word_of_int ?t :: int64) = ?t"
    using lt63 by (intro sint_word_of_int_64) simp_all
  then have "float64_of_int64 (int64_of_float64 cvt (Finite (int a) e)) = round_float64 ?t 0"
    by (simp only: conv float64_of_int64_def)
  moreover have "round_float64 ?t 0 = Finite ?t 0"
  proof (rule round_float64_exact)
    have "int (a div ?D) < int (2 ^ 53)" using lt by (simp only: of_nat_less_iff)
    then show "\<bar>?t\<bar> < 2 ^ 53" by simp
  qed simp_all
  ultimately have rt:
    "float64_of_int64 (int64_of_float64 cvt (Finite (int a) e)) = Finite ?t 0" by simp
  have mn: "min e 0 = e" using assms(3) by simp
  have "int a - ?t * int ?D = int (a mod ?D)"
    by (metis minus_div_mult_eq_mod of_nat_diff of_nat_mult div_times_less_eq_dividend)
  then have diff: "int a * 2 ^ nat (e - e) - ?t * 2 ^ nat (0 - e) = int (a mod ?D)"
    by simp
  have "f64_sub (Finite (int a) e) (Finite ?t 0)
      = round_float64 (int a * 2 ^ nat (e - min e 0) - ?t * 2 ^ nat (0 - min e 0)) (min e 0)"
    by (simp add: f64_sub_def Let_def del: of_nat_div)
  then have "f64_sub (Finite (int a) e) (Finite ?t 0) = round_float64 (int (a mod ?D)) e"
    by (simp only: mn diff)
  moreover have "round_float64 (int (a mod ?D)) e = Finite (int (a mod ?D)) e"
  proof (rule round_float64_exact)
    have "a mod ?D \<le> a" by simp
    then have "a mod ?D < 2 ^ 53" using assms(2) by (rule le_less_trans)
    then have "int (a mod ?D) < int (2 ^ 53)" by (simp only: of_nat_less_iff)
    then show "\<bar>int (a mod ?D)\<bar> < 2 ^ 53" by simp
  next
    show "- 1074 \<le> e" by (rule assms(4))
  next
    show "e \<le> 0" using assms(3) by simp
  qed
  ultimately show ?thesis by (simp only: rt)
qed

lemma thousandths_text:
  assumes "0 < r" and "r < 2 ^ 53" and "e < 0" and "- 1074 \<le> e"
  shows "\<exists>n. \<forall>cvt b. appendInt b (int64_of_float64 cvt (f64_mul (Finite (int r) e) (Finite 1000 0)))
                       = Inr (b @ decimal_nat n)"
proof -
  have pos: "0 < r * 1000" using assms(1) by simp
  have "r * 1000 < 2 ^ 53 * 1000" using assms(2) by simp
  also have "\<dots> < (2::nat) ^ 63" by simp
  finally have lt: "r * 1000 < 2 ^ 63" .
  obtain q k where rd: "round_float64 (int (r * 1000)) e = Finite (int q) k"
    and q: "q \<le> 2 ^ 53" and k: "k < 10"
    using round_float64_small [OF pos lt assms(4,3)] by blast
  have mul: "f64_mul (Finite (int r) e) (Finite 1000 0) = Finite (int q) k"
    using rd by (simp add: f64_mul_def)
  have nn: "0 \<le> f64_trunc (int q) k"
    by (simp add: f64_trunc_def sgn_if pos_imp_zdiv_nonneg_iff)
  have up: "f64_trunc (int q) k < 2 ^ 63"
  proof (cases "0 \<le> k")
    case True
    have "nat k \<le> 9" using k by simp
    then have "(2::nat) ^ nat k \<le> 2 ^ 9" by (intro power_increasing) simp_all
    then have "q * 2 ^ nat k \<le> 2 ^ 53 * 2 ^ 9" using q by (rule mult_le_mono [rotated])
    also have "\<dots> < (2::nat) ^ 63" by simp
    finally have "int (q * 2 ^ nat k) < int (2 ^ 63)" by (simp only: of_nat_less_iff)
    then show ?thesis using True by (simp add: f64_trunc_def)
  next
    case False
    have "q div 2 ^ nat (- k) \<le> q" by simp
    also have "q < 2 ^ 63" using q by (rule le_less_trans) simp
    finally have "int (q div 2 ^ nat (- k)) < int (2 ^ 63)" by (simp only: of_nat_less_iff)
    then show ?thesis using False by (simp add: f64_trunc_def sgn_if zdiv_int)
  qed
  show ?thesis
    using appendInt_of_float64 [OF nn up] by (intro exI [of _ "nat (f64_trunc (int q) k)"]) (simp add: mul)
qed

lemma f64_trunc_abs: "f64_trunc \<bar>m\<bar> e = \<bar>f64_trunc m e\<bar>"
proof (cases "0 \<le> e")
  case True
  then show ?thesis by (simp add: f64_trunc_def abs_mult)
next
  case False
  have "0 \<le> \<bar>m\<bar> div 2 ^ nat (- e)" by (simp add: pos_imp_zdiv_nonneg_iff)
  then show ?thesis using False by (simp add: f64_trunc_def abs_mult sgn_if)
qed

lemma appendJSONFloat_negative:
  "m < 0 \<Longrightarrow> appendJSONFloat cvt buf (Finite m e)
              = appendJSONFloat cvt (buf @ [CHR ''-'']) (Finite (- m) e)"
  by (simp add: appendJSONFloat_def f64_is_zero_def f64_lt_zero_def f64_neg_def)

lemma appendJSONFloat_positive:
  assumes "0 < a" and "a < 2 ^ 53" and "- 1074 \<le> e" and "f64_trunc (int a) e < 2 ^ 63"
  shows "\<exists>n frac. (\<forall>cvt b. appendJSONFloat cvt b (Finite (int a) e) = Inr (b @ decimal_nat n @ frac))
           \<and> (frac = [] \<or> (\<exists>n'. frac = CHR ''.'' # decimal_nat n'))"
proof -
  let ?f = "Finite (int a) e"
  let ?n = "nat (f64_trunc (int a) e)"
  have nn: "0 \<le> f64_trunc (int a) e"
    using f64_trunc_abs [of "int a" e] by simp
  have whole: "appendInt b (int64_of_float64 cvt ?f) = Inr (b @ decimal_nat ?n)" for cvt b
    using nn assms(4) by (rule appendInt_of_float64)
  have sign: "\<not> f64_is_zero ?f" "\<not> f64_lt_zero ?f"
    using assms(1) by (simp_all add: f64_is_zero_def f64_lt_zero_def)
  have nofrac: "appendJSONFloat cvt b ?f = Inr (b @ decimal_nat ?n @ [])"
    if "\<not> f64_gt_zero (f64_sub ?f (float64_of_int64 (int64_of_float64 cvt ?f)))" for cvt b
    using that sign by (simp add: appendJSONFloat_def Let_def whole)
  show ?thesis
  proof (cases "0 \<le> e")
    case True
    then have "int a * 2 ^ nat e < 2 ^ 63" using assms(4) by (simp add: f64_trunc_def)
    then have "\<not> f64_gt_zero (f64_sub ?f (float64_of_int64 (int64_of_float64 cvt ?f)))" for cvt
      using fraction_of_whole [OF assms(1,2) True] by blast
    then have "\<forall>cvt b. appendJSONFloat cvt b ?f = Inr (b @ decimal_nat ?n @ [])"
      using nofrac by blast
    then show ?thesis by blast
  next
    case False
    then have neg: "e < 0" by simp
    let ?r = "a mod 2 ^ nat (- e)"
    have fr: "f64_sub ?f (float64_of_int64 (int64_of_float64 cvt ?f)) = Finite (int ?r) e" for cvt
      using assms(1,2) neg assms(3) by (rule fraction_of_fractional)
    show ?thesis
    proof (cases "?r = 0")
      case True
      then have "\<forall>cvt b. appendJSONFloat cvt b ?f = Inr (b @ decimal_nat ?n @ [])"
        using nofrac fr by (simp add: f64_gt_zero_def)
      then show ?thesis by blast
    next
      case nz: False
      then have rpos: "0 < ?r" by simp
      have "?r \<le> a" by simp
      then have rlt: "?r < 2 ^ 53" using assms(2) by (rule le_less_trans)
      obtain n' where th: "\<And>cvt b. appendInt b
            (int64_of_float64 cvt (f64_mul (Finite (int ?r) e) (Finite 1000 0)))
          = Inr (b @ decimal_nat n')"
        using thousandths_text [OF rpos rlt neg assms(3)] by blast
      have gt: "f64_gt_zero (Finite (int ?r) e)" using rpos by (simp add: f64_gt_zero_def)
      have "appendJSONFloat cvt b ?f = Inr (b @ decimal_nat ?n @ CHR ''.'' # decimal_nat n')"
        for cvt b
        using sign gt by (simp add: appendJSONFloat_def Let_def whole fr th del: of_nat_mod)
      then show ?thesis by blast
    qed
  qed
qed

text \<open>
  For a finite number whose integer part fits an \<open>int64\<close> the renderer writes a sign, the
  integer part and at most one fraction, whatever the platform does for the other
  conversions.
\<close>

lemma appendJSONFloat_fits:
  assumes "float64_fits f"
  shows "\<exists>sg n frac. (\<forall>cvt buf. appendJSONFloat cvt buf f = Inr (buf @ sg @ decimal_nat n @ frac))
           \<and> (sg = [] \<or> sg = [CHR ''-''])
           \<and> (frac = [] \<or> (\<exists>n'. frac = CHR ''.'' # decimal_nat n'))"
proof -
  obtain m e where f: "f = Finite m e" and m: "\<bar>m\<bar> < 2 ^ 53" and e: "- 1074 \<le> e"
    and t: "\<bar>f64_trunc m e\<bar> < 2 ^ 63"
    using assms by (cases f) (simp_all add: float64_fits_def)
  show ?thesis
  proof (cases "m = 0")
    case True
    then have "\<forall>cvt buf. appendJSONFloat cvt buf f = Inr (buf @ [] @ decimal_nat 0 @ [])"
      by (simp add: f appendJSONFloat_def f64_is_zero_def decimal_nat.simps digit_char_0)
    then show ?thesis by blast
  next
    case False
    define a where "a = nat \<bar>m\<bar>"
    have a: "0 < a" "int a = \<bar>m\<bar>" using False by (simp_all add: a_def)
    have alt: "a < 2 ^ 53" using m by (simp add: a_def nat_less_iff)
    have tr: "f64_trunc (int a) e < 2 ^ 63" using t by (simp add: a(2) f64_trunc_abs)
    obtain n frac where out: "\<And>cvt b. appendJSONFloat cvt b (Finite (int a) e)
                                = Inr (b @ decimal_nat n @ frac)"
      and shape: "frac = [] \<or> (\<exists>n'. frac = CHR ''.'' # decimal_nat n')"
      using appendJSONFloat_positive [OF a(1) alt e tr] by blast
    show ?thesis
    proof (cases "m < 0")
      case True
      then have "int a = - m" using a(2) by simp
      then have "appendJSONFloat cvt buf f = Inr (buf @ [CHR ''-''] @ decimal_nat n @ frac)"
        for cvt buf
        using appendJSONFloat_negative [OF True, of cvt buf e] out [of cvt "buf @ [CHR ''-'']"]
        by (simp add: f)
      then show ?thesis using shape by blast
    next
      case pos: False
      then have "int a = m" using a(2) by simp
      then have "appendJSONFloat cvt buf f = Inr (buf @ [] @ decimal_nat n @ frac)" for cvt buf
        using out [of cvt buf] by (simp add: f)
      then show ?thesis using shape by blast
    qed
  qed
qed

lemma appendJSONFloat_float_text:
  assumes "float64_fits f"
  shows "appendJSONFloat cvt buf f = Inr (buf @ float_text f)" and "number_shape (float_text f)"
proof -
  obtain sg n frac where out: "\<And>cvt buf. appendJSONFloat cvt buf f = Inr (buf @ sg @ decimal_nat n @ frac)"
    and sg: "sg = [] \<or> sg = [CHR ''-'']"
    and frac: "frac = [] \<or> (\<exists>n'. frac = CHR ''.'' # decimal_nat n')"
    using appendJSONFloat_fits [OF assms] by blast
  have ft: "float_text f = sg @ decimal_nat n @ frac"
    using out [of amd64_cvt "[]"] by (simp add: float_text_def)
  show "appendJSONFloat cvt buf f = Inr (buf @ float_text f)" using out [of cvt buf] ft by simp
  show "number_shape (float_text f)" unfolding number_shape_def using ft sg frac by blast
qed

subsection \<open>Values of an unsupported type\<close>

lemma appendJSONString_eq: "appendJSONString buf s = buf @ concat (map escape_byte s)"
  by (induction s arbitrary: buf) (simp_all add: escape_byte_def)

lemma appendJSONString_unknown: "appendJSONString buf ''unknown'' = buf @ ''unknown''"
  by simp

text \<open>
  Claim C2, as amended: a value of an unsupported type never makes the encoder fail, and
  the placeholder is written with its double quotes in both modes. Text mode does not
  apply its quoting rule to the placeholder: the \<open>default\<close> branch of \<open>appendValue\<close> appends
  the two quote characters itself.
\<close>

theorem unsupported_value_quoted_unknown:
  "appendValue cvt buf VOther = Inr (buf @ [dquote] @ ''unknown'' @ [dquote])
   \<and> appendJSONValue cvt buf VOther = Inr (buf @ [dquote] @ ''unknown'' @ [dquote])"
  by (simp add: appendValue_def appendJSONValue_def)

text \<open>
  The claim as written fails in text mode: after the key \<open>k=\<close> the encoder writes the nine
  bytes of the quoted placeholder, not the seven of the bare word.
\<close>

theorem unsupported_value_text_counterexample:
  "appendValue amd64_cvt ''k='' VOther \<noteq> Inr ''k=unknown''
   \<and> appendValue amd64_cvt ''k='' VOther = Inr (''k='' @ [dquote] @ ''unknown'' @ [dquote])"
  by (simp add: appendValue_def)

section \<open>Properties of delivery and flushing\<close>

text \<open>
  \<open>New\<close> gives a logger with an empty accumulation buffer, an empty pool and nothing done
  yet, when the capacity asked for can be allocated; a capacity of \<open>2 ^ 62\<close> makes it panic.
\<close>

lemma New_ok:
  "0 \<le> BufferSize cfg \<Longrightarrow> BufferSize cfg \<le> maxAlloc \<Longrightarrow> BufferSize cfg \<le> avail \<Longrightarrow>
   New avail cfg = Inr \<lparr>config = cfg, buffer = [], pool = [], trace = []\<rparr>"
  by (simp add: New_def)

lemma New_cap_out_of_range:
  "New avail (cfg\<lparr>BufferSize := 2 ^ 62\<rparr>) = Inl MakeSliceCapOutOfRange"
  by (simp add: New_def maxAlloc_def)

lemma writes_append [simp]: "writes (xs @ ys) = writes xs @ writes ys"
  by (simp add: writes_def)

lemma writes_simps [simp]:
  "writes [] = []"
  "writes (MuLock # evs) = writes evs"
  "writes (MuUnlock # evs) = writes evs"
  "writes (OutputWrite b # evs) = b # writes evs"
  "writes (PoolGet s # evs) = writes evs"
  "writes (PoolPut s # evs) = writes evs"
  by (simp_all add: writes_def)



text \<open>
  Claim C9: explicit \<open>Flush\<close>. In buffered mode a non-empty accumulation is written to the
  output whole, in one \<open>Write\<close> under the lock, and emptied. When the accumulation is empty
  nothing is written. In unbuffered mode \<open>Flush\<close> changes nothing at all. A second \<open>Flush\<close>
  right after a first one writes nothing and leaves the buffer empty: in buffered mode it only
  takes and releases the lock, in unbuffered mode it does not even do that.
\<close>

theorem Flush_spec:
  "(0 < BufferSize (config l) \<and> buffer l \<noteq> [] \<longrightarrow>
      trace (Flush l) = trace l @ [MuLock, OutputWrite (buffer l), MuUnlock]
      \<and> buffer (Flush l) = [])
   \<and> (buffer l = [] \<longrightarrow> writes (trace (Flush l)) = writes (trace l) \<and> buffer (Flush l) = [])
   \<and> (\<not> 0 < BufferSize (config l) \<longrightarrow> Flush l = l)
   \<and> writes (trace (Flush (Flush l))) = writes (trace (Flush l))
   \<and> buffer (Flush (Flush l)) = buffer (Flush l)
   \<and> Flush (Flush l)
       = (Flush l)\<lparr>trace := trace (Flush l)
                        @ (if 0 < BufferSize (config l) then [MuLock, MuUnlock] else [])\<rparr>"
  by (auto simp add: Flush_def flush_def Let_def)

theorem Flush_spec_witness:
  "0 < BufferSize (config \<lparr>config = \<lparr>Level = InfoLevel, Format = TextFormat, BufferSize = 50,
                                        UseUTC = True\<rparr>,
                           buffer = ''pending'', pool = [], trace = []\<rparr>)
   \<and> buffer \<lparr>config = \<lparr>Level = InfoLevel, Format = TextFormat, BufferSize = 50, UseUTC = True\<rparr>,
             buffer = ''pending'', pool = [], trace = []\<rparr> \<noteq> []
   \<and> trace (Flush \<lparr>config = \<lparr>Level = InfoLevel, Format = TextFormat, BufferSize = 50,
                               UseUTC = True\<rparr>,
                    buffer = ''pending'', pool = [], trace = []\<rparr>)
       = [MuLock, OutputWrite ''pending'', MuUnlock]
   \<and> buffer (Flush \<lparr>config = \<lparr>Level = InfoLevel, Format = TextFormat, BufferSize = 50,
                                UseUTC = True\<rparr>,
                     buffer = ''pending'', pool = [], trace = []\<rparr>) = []
   \<and> \<not> 0 < BufferSize (config \<lparr>config = \<lparr>Level = InfoLevel, Format = TextFormat,
                                            BufferSize = 0, UseUTC = True\<rparr>,
                               buffer = [], pool = [], trace = []\<rparr>)
   \<and> Flush \<lparr>config = \<lparr>Level = InfoLevel, Format = TextFormat, BufferSize = 0, UseUTC = True\<rparr>,
            buffer = [], pool = [], trace = []\<rparr>
       = \<lparr>config = \<lparr>Level = InfoLevel, Format = TextFormat, BufferSize = 0, UseUTC = True\<rparr>,
          buffer = [], pool = [], trace = []\<rparr>"
  using Flush_spec [of "\<lparr>config = \<lparr>Level = InfoLevel, Format = TextFormat, BufferSize = 50,
                                    UseUTC = True\<rparr>,
                        buffer = ''pending'', pool = [], trace = []\<rparr>"]
        Flush_spec [of "\<lparr>config = \<lparr>Level = InfoLevel, Format = TextFormat, BufferSize = 0,
                                    UseUTC = True\<rparr>,
                        buffer = [], pool = [], trace = []\<rparr>"]
  by simp

section \<open>Properties of a log call\<close>

text \<open>
  Claim C8: a call below the configured minimum level does nothing. The logger that comes
  back is the one that went in: no event is added to the trace (no \<open>Write\<close> to the output,
  no \<open>Get\<close> on the pool), and the accumulation buffer and the pool are as before.
\<close>

theorem log_below_minimum_is_noop:
  "level <s Level (config l) \<Longrightarrow> log cvt now l level msg flds = Inr l"
  by (simp add: log_def)

theorem log_below_minimum_is_noop_witness:
  "DebugLevel <s Level (config \<lparr>config = \<lparr>Level = InfoLevel, Format = JSONFormat,
                                           BufferSize = 0, UseUTC = True\<rparr>,
                              buffer = [], pool = [], trace = []\<rparr>)
   \<and> log amd64_cvt \<lparr>unix_sec = 0, nsec = 0, zone_offset = 0\<rparr>
        \<lparr>config = \<lparr>Level = InfoLevel, Format = JSONFormat, BufferSize = 0, UseUTC = True\<rparr>,
         buffer = [], pool = [], trace = []\<rparr> DebugLevel ''x'' []
       = Inr \<lparr>config = \<lparr>Level = InfoLevel, Format = JSONFormat, BufferSize = 0, UseUTC = True\<rparr>,
              buffer = [], pool = [], trace = []\<rparr>"
proof -
  have h: "DebugLevel <s Level (config \<lparr>config = \<lparr>Level = InfoLevel, Format = JSONFormat,
                                           BufferSize = 0, UseUTC = True\<rparr>,
                              buffer = [], pool = [], trace = []\<rparr>)"
    by (simp add: DebugLevel_def InfoLevel_def word_sless_alt)
  from log_below_minimum_is_noop [OF h] h show ?thesis by simp
qed

section \<open>The encoders only append, and never panic\<close>

lemma appendInt_extends: "\<exists>s. appendInt buf i = Inr (buf @ s)"
  using appendInt_decimal [of i buf] appendInt_at_min [of buf] by (cases "i = MinInt64") auto

lemma appendJSONFloat_extends: "\<exists>s. appendJSONFloat cvt buf f = Inr (buf @ s)"
proof (cases "f64_is_zero f")
  case True
  then show ?thesis by (simp add: appendJSONFloat_def)
next
  case False
  obtain sg f1 where p:
    "(if f64_lt_zero f then (buf @ [CHR ''-''], f64_neg f) else (buf, f)) = (buf @ sg, f1)"
    by (cases "f64_lt_zero f") auto
  obtain s2 where b2: "appendInt (buf @ sg) (int64_of_float64 cvt f1) = Inr ((buf @ sg) @ s2)"
    using appendInt_extends by blast
  obtain s3 where b3:
    "appendInt (((buf @ sg) @ s2) @ [CHR ''.''])
       (int64_of_float64 cvt
         (f64_mul (f64_sub f1 (float64_of_int64 (int64_of_float64 cvt f1))) (Finite 1000 0)))
     = Inr ((((buf @ sg) @ s2) @ [CHR ''.'']) @ s3)"
    using appendInt_extends by blast
  show ?thesis
  proof (cases "f64_gt_zero (f64_sub f1 (float64_of_int64 (int64_of_float64 cvt f1)))")
    case True
    then have "appendJSONFloat cvt buf f = Inr (buf @ (sg @ s2 @ [CHR ''.''] @ s3))"
      using False p b2 b3 by (simp add: appendJSONFloat_def Let_def)
    then show ?thesis by blast
  next
    case nofrac: False
    then have "appendJSONFloat cvt buf f = Inr (buf @ (sg @ s2))"
      using False p b2 by (simp add: appendJSONFloat_def Let_def)
    then show ?thesis by blast
  qed
qed

lemma appendValue_extends: "\<exists>s. appendValue cvt buf v = Inr (buf @ s)"
proof (cases v)
  case (VString x)
  then show ?thesis by (simp add: appendValue_def)
next
  case (VInt x)
  then show ?thesis using appendInt_extends by (simp add: appendValue_def)
next
  case (VInt64 x)
  then show ?thesis using appendInt_extends by (simp add: appendValue_def)
next
  case (VFloat64 x)
  then show ?thesis using appendJSONFloat_extends by (simp add: appendValue_def)
next
  case (VBool x)
  then show ?thesis by (simp add: appendValue_def)
next
  case VOther
  then show ?thesis by (simp add: appendValue_def)
qed

lemma appendJSONValue_extends: "\<exists>s. appendJSONValue cvt buf v = Inr (buf @ s)"
proof (cases v)
  case (VString x)
  then show ?thesis by (simp add: appendJSONValue_def appendJSONString_eq)
next
  case (VInt x)
  then show ?thesis using appendInt_extends by (simp add: appendJSONValue_def)
next
  case (VInt64 x)
  then show ?thesis using appendInt_extends by (simp add: appendJSONValue_def)
next
  case (VFloat64 x)
  then show ?thesis using appendJSONFloat_extends by (simp add: appendJSONValue_def)
next
  case (VBool x)
  then show ?thesis by (simp add: appendJSONValue_def)
next
  case VOther
  then show ?thesis by (simp add: appendJSONValue_def)
qed

lemma appendText_fields_extends: "\<exists>s. appendText_fields cvt buf flds = Inr (buf @ s)"
proof (induction flds arbitrary: buf)
  case Nil
  show ?case by simp
next
  case (Cons fld flds)
  obtain s where s:
    "appendValue cvt (buf @ [CHR '' ''] @ Key fld @ [CHR ''='']) (Value fld)
       = Inr ((buf @ [CHR '' ''] @ Key fld @ [CHR ''='']) @ s)"
    using appendValue_extends by blast
  obtain s' where
    "appendText_fields cvt ((buf @ [CHR '' ''] @ Key fld @ [CHR ''='']) @ s) flds
       = Inr (((buf @ [CHR '' ''] @ Key fld @ [CHR ''='']) @ s) @ s')"
    using Cons.IH by blast
  then have "appendText_fields cvt buf (fld # flds)
               = Inr (buf @ ([CHR '' ''] @ Key fld @ [CHR ''=''] @ s @ s'))"
    using s by simp
  then show ?case by blast
qed

lemma appendJSON_fields_extends: "\<exists>s. appendJSON_fields cvt buf flds = Inr (buf @ s)"
proof (induction flds arbitrary: buf)
  case Nil
  show ?case by simp
next
  case (Cons fld flds)
  let ?b = "buf @ [CHR '','', dquote] @ concat (map escape_byte (Key fld)) @ [dquote, CHR '':'']"
  obtain s where s: "appendJSONValue cvt ?b (Value fld) = Inr (?b @ s)"
    using appendJSONValue_extends by blast
  obtain s' where "appendJSON_fields cvt (?b @ s) flds = Inr ((?b @ s) @ s')"
    using Cons.IH by blast
  then have "appendJSON_fields cvt buf (fld # flds)
               = Inr (buf @ ([CHR '','', dquote] @ concat (map escape_byte (Key fld))
                             @ [dquote, CHR '':''] @ s @ s'))"
    using s by (simp add: appendJSONString_eq)
  then show ?case by blast
qed

lemma appendText_extends:
  "\<exists>s. appendText cvt cfg now buf level msg flds
          = Inr (buf @ Time_Format (UTC now) ''2006-01-02T15:04:05.000Z07:00'' @ s)"
proof -
  let ?b = "buf @ Time_Format (UTC now) ''2006-01-02T15:04:05.000Z07:00'' @ [CHR '' '']
              @ Level_String level @ [CHR '' ''] @ msg"
  obtain s where "appendText_fields cvt ?b flds = Inr (?b @ s)"
    using appendText_fields_extends by blast
  then have "appendText cvt cfg now buf level msg flds
               = Inr (buf @ Time_Format (UTC now) ''2006-01-02T15:04:05.000Z07:00''
                      @ ([CHR '' ''] @ Level_String level @ [CHR '' ''] @ msg @ s))"
    by (simp add: appendText_def Let_def)
  then show ?thesis by blast
qed

lemma appendJSON_extends:
  "\<exists>s. appendJSON cvt cfg now buf level msg flds
          = Inr (buf @ [CHR ''{'', dquote] @ ''timestamp'' @ [dquote, CHR '':'', dquote]
                 @ Time_Format (if UseUTC cfg then UTC now else now) RFC3339Nano @ s)"
proof -
  let ?t = "Time_Format (if UseUTC cfg then UTC now else now) RFC3339Nano"
  let ?b = "buf @ [CHR ''{'', dquote] @ ''timestamp'' @ [dquote, CHR '':'', dquote] @ ?t
              @ [dquote, CHR '','', dquote] @ ''level'' @ [dquote, CHR '':'', dquote]
              @ Level_String level
              @ [dquote, CHR '','', dquote] @ ''message'' @ [dquote, CHR '':'', dquote]
              @ concat (map escape_byte msg) @ [dquote]"
  obtain s where "appendJSON_fields cvt ?b flds = Inr (?b @ s)"
    using appendJSON_fields_extends by blast
  then have "appendJSON cvt cfg now buf level msg flds
               = Inr (buf @ [CHR ''{'', dquote] @ ''timestamp'' @ [dquote, CHR '':'', dquote] @ ?t
                      @ ([dquote, CHR '','', dquote] @ ''level'' @ [dquote, CHR '':'', dquote]
                         @ Level_String level
                         @ [dquote, CHR '','', dquote] @ ''message'' @ [dquote, CHR '':'', dquote]
                         @ concat (map escape_byte msg) @ [dquote] @ s @ [CHR ''}'']))"
    by (simp add: appendJSON_def Let_def appendJSONString_eq)
  then show ?thesis by blast
qed

lemma log_never_panics: "\<exists>l'. log cvt now l level msg flds = Inr l'"
proof (cases "level <s Level (config l)")
  case True
  then show ?thesis by (simp add: log_def)
next
  case False
  obtain got l1 where g: "pool_Get l = (got, l1)" by (cases "pool_Get l") auto
  obtain enc where
    "(if Format (config l1) = JSONFormat
      then appendJSON cvt (config l1) now [] level msg flds
      else appendText cvt (config l1) now [] level msg flds) = Inr enc"
    using appendJSON_extends [of cvt "config l1" now "[]" level msg flds]
          appendText_extends [of cvt "config l1" now "[]" level msg flds]
    by (cases "Format (config l1) = JSONFormat") auto
  then show ?thesis using False g by (auto simp add: log_def Let_def split: if_splits)
qed

section \<open>Properties of the time layouts\<close>

lemma length_decimal_nat_le: "n < 10 ^ w \<Longrightarrow> 0 < w \<Longrightarrow> length (decimal_nat n) \<le> w"
proof (induction n arbitrary: w rule: decimal_nat.induct)
  case (1 n)
  show ?case
  proof (cases "n < 10")
    case True
    then show ?thesis using "1.prems" by (subst decimal_nat.simps) simp
  next
    case False
    obtain v where v: "w = Suc v" using "1.prems"(2) by (cases w) auto
    have "v \<noteq> 0" using False "1.prems"(1) v by (cases v) auto
    moreover have "n div 10 < 10 ^ v" using "1.prems"(1) v by auto
    ultimately have "length (decimal_nat (n div 10)) \<le> v" using "1.IH" [OF False] by simp
    then show ?thesis using False v by (subst decimal_nat.simps) simp
  qed
qed

lemma length_pad_nat: "n < 10 ^ w \<Longrightarrow> 0 < w \<Longrightarrow> length (pad_nat w n) = w"
  using length_decimal_nat_le [of n w] by (simp add: pad_nat_def)

lemma pad_nat_Suc:
  assumes "n < 10 ^ Suc w" and "0 < w"
  shows "pad_nat (Suc w) n = pad_nat w (n div 10) @ [digit_char (n mod 10)]"
proof (cases "n < 10")
  case True
  then have "decimal_nat n = [digit_char n]" "decimal_nat (n div 10) = [CHR ''0'']"
    by (simp_all add: decimal_nat.simps digit_char_simps)
  moreover have "replicate w (CHR ''0'') = replicate (w - 1) (CHR ''0'') @ [CHR ''0'']"
    using assms(2) by (cases w) (simp_all add: replicate_append_same)
  ultimately show ?thesis using True by (simp add: pad_nat_def)
next
  case False
  have q: "n div 10 < 10 ^ w" using assms(1) by auto
  have "length (decimal_nat (n div 10)) \<le> w" using q assms(2) by (rule length_decimal_nat_le)
  moreover have "decimal_nat n = decimal_nat (n div 10) @ [digit_char (n mod 10)]"
    using False by (subst decimal_nat.simps) simp
  ultimately show ?thesis by (simp add: pad_nat_def)
qed

lemma take_pad_nat:
  "n < 10 ^ (w + k) \<Longrightarrow> 0 < w \<Longrightarrow> take w (pad_nat (w + k) n) = pad_nat w (n div 10 ^ k)"
proof (induction k arbitrary: n)
  case 0
  then show ?case by (simp add: length_pad_nat)
next
  case (Suc k)
  have q: "n div 10 < 10 ^ (w + k)" using Suc.prems(1) by auto
  have "pad_nat (Suc (w + k)) n = pad_nat (w + k) (n div 10) @ [digit_char (n mod 10)]"
    using Suc.prems by (intro pad_nat_Suc) simp_all
  moreover have "length (pad_nat (w + k) (n div 10)) = w + k"
    using q Suc.prems(2) by (intro length_pad_nat) simp_all
  ultimately have "take w (pad_nat (w + Suc k) n) = take w (pad_nat (w + k) (n div 10))"
    by simp
  also have "\<dots> = pad_nat w (n div 10 div 10 ^ k)" using q Suc.prems(2) by (rule Suc.IH)
  also have "n div 10 div 10 ^ k = n div 10 ^ Suc k" by (simp add: div_mult2_eq)
  finally show ?case .
qed

text \<open>The fixed fraction \<open>.000\<close> shows the milliseconds of the instant, cut, on three digits.\<close>

lemma frac_fixed_millis:
  assumes "ns < 10 ^ 9"
  shows "frac_fixed 3 ns = CHR ''.'' # pad_nat 3 (ns div 1000000)"
  using take_pad_nat [of ns 3 6] assms by (simp add: frac_fixed_def)

lemma length_frac_fixed_millis: "ns < 10 ^ 9 \<Longrightarrow> length (frac_fixed 3 ns) = 4"
proof -
  assume a: "ns < 10 ^ 9"
  then have "ns div 1000000 < 10 ^ 3" by simp
  then have "length (pad_nat 3 (ns div 1000000)) = 3" by (intro length_pad_nat) simp_all
  then show ?thesis using a by (simp add: frac_fixed_millis)
qed

lemma Time_Format_text_layout:
  "Time_Format (UTC t) ''2006-01-02T15:04:05.000Z07:00''
     = format_clock (UTC t) @ frac_fixed 3 (nsec t) @ ''Z''"
  by (simp add: Time_Format_def UTC_def format_zone_def)

lemma format_clock_UTC_zone: "format_clock (UTC (t\<lparr>zone_offset := z\<rparr>)) = format_clock (UTC t)"
  by (simp add: format_clock_def UTC_def)

lemma Time_Format_RFC3339Nano:
  "Time_Format t RFC3339Nano = format_clock t @ frac_trimmed (nsec t) @ format_zone (zone_offset t)"
  by (simp add: Time_Format_def RFC3339Nano_def)

lemma UTC_zone: "UTC (t\<lparr>zone_offset := z\<rparr>) = UTC t"
  by (simp add: UTC_def)

lemma appendText_ignores_zone_and_config:
  "appendText cvt cfg (now\<lparr>zone_offset := z\<rparr>) buf level msg flds
     = appendText cvt cfg' now buf level msg flds"
  by (simp add: appendText_def UTC_zone)

lemma appendJSON_UseUTC_ignores_zone:
  "UseUTC cfg \<Longrightarrow> appendJSON cvt cfg (now\<lparr>zone_offset := z\<rparr>) buf level msg flds
     = appendJSON cvt cfg now buf level msg flds"
  by (simp add: appendJSON_def UTC_zone)

subsection \<open>Two clock readings, evaluated\<close>

lemma decimal_nat_evals:
  "decimal_nat 0 = ''0''" "decimal_nat (Suc 0) = ''1''" "decimal_nat 2 = ''2''"
  "decimal_nat 4 = ''4''" "decimal_nat 5 = ''5''" "decimal_nat 15 = ''15''"
  "decimal_nat 17 = ''17''" "decimal_nat 20 = ''20''" "decimal_nat 1970 = ''1970''"
  "decimal_nat 2024 = ''2024''" "decimal_nat 123456789 = ''123456789''"
  by (simp_all add: decimal_nat.simps digit_char_simps digit_char_Suc0)

lemma pad_int_evals:
  "pad_int 2 0 = ''00''" "pad_int 2 1 = ''01''" "pad_int 2 2 = ''02''" "pad_int 2 4 = ''04''"
  "pad_int 2 5 = ''05''" "pad_int 2 15 = ''15''" "pad_int 2 17 = ''17''" "pad_int 2 20 = ''20''"
  "pad_int 4 1970 = ''1970''" "pad_int 4 2024 = ''2024''"
  by (simp_all add: pad_int_def pad_nat_def decimal_nat_evals)

lemma civil_from_days_evals:
  "civil_from_days 0 = (1970, 1, 1)" "civil_from_days 19742 = (2024, 1, 20)"
  unfolding civil_from_days_def Let_def by simp_all

lemma format_clock_fields:
  "format_clock \<lparr>unix_sec = s, nsec = n, zone_offset = z\<rparr>
     = (case civil_from_days ((s + z) div 86400) of
          (y, m, d) \<Rightarrow>
            pad_int 4 y @ ''-'' @ pad_int 2 m @ ''-'' @ pad_int 2 d @ ''T''
            @ pad_int 2 ((s + z) mod 86400 div 3600) @ '':''
            @ pad_int 2 ((s + z) mod 86400 mod 3600 div 60)
            @ '':'' @ pad_int 2 ((s + z) mod 86400 mod 60))"
  by (simp add: format_clock_def Let_def)

lemma format_clock_epoch: "format_clock (UTC epoch) = ''1970-01-01T00:00:00''"
  by (simp add: UTC_def epoch_def format_clock_fields civil_from_days_evals pad_int_evals)

lemma frac_fixed_0: "frac_fixed 3 0 = ''.000''"
  by (simp add: frac_fixed_def pad_nat_def decimal_nat_evals numeral_eq_Suc)

lemma Time_Format_epoch_text:
  "Time_Format (UTC epoch) ''2006-01-02T15:04:05.000Z07:00'' = ''1970-01-01T00:00:00.000Z''"
proof -
  have "nsec epoch = 0" by (simp add: epoch_def)
  then show ?thesis by (simp add: Time_Format_text_layout format_clock_epoch frac_fixed_0)
qed

lemma Time_Format_epoch_json: "Time_Format (UTC epoch) RFC3339Nano = ''1970-01-01T00:00:00Z''"
proof -
  have "nsec (UTC epoch) = 0" "zone_offset (UTC epoch) = 0" by (simp_all add: epoch_def UTC_def)
  then show ?thesis
    by (simp add: Time_Format_RFC3339Nano format_clock_epoch frac_trimmed_def format_zone_def)
qed

lemma format_clock_sample_utc: "format_clock (UTC sample_time) = ''2024-01-20T15:04:05''"
  by (simp add: UTC_def sample_time_def format_clock_fields civil_from_days_evals pad_int_evals)

lemma format_clock_sample_local: "format_clock sample_time = ''2024-01-20T17:04:05''"
  by (simp add: sample_time_def format_clock_fields civil_from_days_evals pad_int_evals)

lemma frac_fixed_sample: "frac_fixed 3 123456789 = ''.123''"
  by (simp add: frac_fixed_def pad_nat_def decimal_nat_evals)

lemma Time_Format_sample_text:
  "Time_Format (UTC sample_time) ''2006-01-02T15:04:05.000Z07:00'' = ''2024-01-20T15:04:05.123Z''"
proof -
  have "nsec sample_time = 123456789" by (simp add: sample_time_def)
  then show ?thesis
    by (simp add: Time_Format_text_layout format_clock_sample_utc frac_fixed_sample)
qed

lemma frac_trimmed_sample: "frac_trimmed 123456789 = ''.123456789''"
  by (simp add: frac_trimmed_def pad_nat_def decimal_nat_evals)

lemma Time_Format_sample_json_utc:
  "Time_Format (UTC sample_time) RFC3339Nano = ''2024-01-20T15:04:05.123456789Z''"
proof -
  have "nsec (UTC sample_time) = 123456789" "zone_offset (UTC sample_time) = 0"
    by (simp_all add: UTC_def sample_time_def)
  then show ?thesis
    by (simp add: Time_Format_RFC3339Nano format_clock_sample_utc frac_trimmed_sample
        format_zone_def)
qed

lemma format_zone_7200: "format_zone 7200 = ''+02:00''"
  by (simp add: format_zone_def signed_divide_int_def pad_int_evals)

lemma Time_Format_sample_json_local:
  "Time_Format sample_time RFC3339Nano = ''2024-01-20T17:04:05.123456789+02:00''"
proof -
  have "nsec sample_time = 123456789" "zone_offset sample_time = 7200"
    by (simp_all add: sample_time_def)
  then show ?thesis
    by (simp add: Time_Format_RFC3339Nano format_clock_sample_local frac_trimmed_sample
        format_zone_7200)
qed

section \<open>The timestamp of a record\<close>

text \<open>
  Claim C7: the timestamp of a text record is in UTC whatever the configuration and the
  local zone are, it shows the milliseconds on three digits, and it ends with the letter
  Z. The timestamp of a JSON record is in the layout \<open>RFC3339Nano\<close> (a fraction of up to nine
  digits) and follows the configuration: in UTC when \<open>UseUTC\<close> is set, and otherwise in
  the zone of the clock reading, with that zone's offset.
\<close>

theorem timestamp_text_utc_json_configured:
  "appendText cvt cfg (now\<lparr>zone_offset := z\<rparr>) buf level msg flds
     = appendText cvt cfg' now buf level msg flds
   \<and> (nsec now < 10 ^ 9 \<longrightarrow>
        (\<exists>rest. appendText cvt cfg now buf level msg flds
           = Inr (buf @ format_clock (UTC now) @ [CHR ''.''] @ pad_nat 3 (nsec now div 1000000)
                  @ ''Z'' @ rest)))
   \<and> (\<exists>rest. appendJSON cvt cfg now buf level msg flds
           = Inr (buf @ [CHR ''{'', dquote] @ ''timestamp'' @ [dquote, CHR '':'', dquote]
                  @ format_clock (if UseUTC cfg then UTC now else now)
                  @ frac_trimmed (nsec now)
                  @ format_zone (if UseUTC cfg then 0 else zone_offset now) @ rest))
   \<and> (UseUTC cfg \<longrightarrow>
        appendJSON cvt cfg (now\<lparr>zone_offset := z\<rparr>) buf level msg flds
          = appendJSON cvt cfg now buf level msg flds)"
proof (intro conjI impI)
  show "appendText cvt cfg (now\<lparr>zone_offset := z\<rparr>) buf level msg flds
          = appendText cvt cfg' now buf level msg flds"
    by (rule appendText_ignores_zone_and_config)
next
  assume ns: "nsec now < 10 ^ 9"
  obtain s where "appendText cvt cfg now buf level msg flds
      = Inr (buf @ Time_Format (UTC now) ''2006-01-02T15:04:05.000Z07:00'' @ s)"
    using appendText_extends by blast
  then have "appendText cvt cfg now buf level msg flds
      = Inr (buf @ format_clock (UTC now) @ [CHR ''.''] @ pad_nat 3 (nsec now div 1000000)
             @ ''Z'' @ s)"
    using ns by (simp add: Time_Format_text_layout frac_fixed_millis)
  then show "\<exists>rest. appendText cvt cfg now buf level msg flds
      = Inr (buf @ format_clock (UTC now) @ [CHR ''.''] @ pad_nat 3 (nsec now div 1000000)
             @ ''Z'' @ rest)"
    by blast
next
  obtain s where "appendJSON cvt cfg now buf level msg flds
      = Inr (buf @ [CHR ''{'', dquote] @ ''timestamp'' @ [dquote, CHR '':'', dquote]
             @ Time_Format (if UseUTC cfg then UTC now else now) RFC3339Nano @ s)"
    using appendJSON_extends by blast
  moreover have "Time_Format (if UseUTC cfg then UTC now else now) RFC3339Nano
      = format_clock (if UseUTC cfg then UTC now else now) @ frac_trimmed (nsec now)
        @ format_zone (if UseUTC cfg then 0 else zone_offset now)"
    by (simp add: Time_Format_RFC3339Nano UTC_def)
  ultimately show "\<exists>rest. appendJSON cvt cfg now buf level msg flds
      = Inr (buf @ [CHR ''{'', dquote] @ ''timestamp'' @ [dquote, CHR '':'', dquote]
             @ format_clock (if UseUTC cfg then UTC now else now)
             @ frac_trimmed (nsec now)
             @ format_zone (if UseUTC cfg then 0 else zone_offset now) @ rest)"
    by (metis append.assoc)
next
  assume "UseUTC cfg"
  then show "appendJSON cvt cfg (now\<lparr>zone_offset := z\<rparr>) buf level msg flds
               = appendJSON cvt cfg now buf level msg flds"
    by (rule appendJSON_UseUTC_ignores_zone)
qed

lemma Level_String_Info: "Level_String InfoLevel = ''INFO''"
  by (simp add: Level_String_def InfoLevel_def DebugLevel_def)

lemma appendText_sample:
  "appendText cvt cfg sample_time [] InfoLevel ''m'' [] = Inr ''2024-01-20T15:04:05.123Z INFO m''"
  by (simp add: appendText_def Time_Format_sample_text Level_String_Info)

lemma appendJSON_sample_local:
  \<open>\<not> UseUTC cfg \<Longrightarrow> appendJSON cvt cfg sample_time [] InfoLevel ''m'' []
     = Inr ''{"timestamp":"2024-01-20T17:04:05.123456789+02:00","level":"INFO","message":"m"}''\<close>
  by (simp add: appendJSON_def Time_Format_sample_json_local Level_String_Info)

lemma appendJSON_sample_utc:
  \<open>UseUTC cfg \<Longrightarrow> appendJSON cvt cfg sample_time [] InfoLevel ''m'' []
     = Inr ''{"timestamp":"2024-01-20T15:04:05.123456789Z","level":"INFO","message":"m"}''\<close>
  by (simp add: appendJSON_def Time_Format_sample_json_utc Level_String_Info)

theorem timestamp_text_utc_json_configured_witness:
  \<open>nsec sample_time < 10 ^ 9
   \<and> appendText amd64_cvt \<lparr>Level = InfoLevel, Format = TextFormat, BufferSize = 0, UseUTC = False\<rparr>
        sample_time [] InfoLevel ''m'' []
       = Inr ''2024-01-20T15:04:05.123Z INFO m''
   \<and> appendJSON amd64_cvt \<lparr>Level = InfoLevel, Format = JSONFormat, BufferSize = 0, UseUTC = False\<rparr>
        sample_time [] InfoLevel ''m'' []
       = Inr ''{"timestamp":"2024-01-20T17:04:05.123456789+02:00","level":"INFO","message":"m"}''
   \<and> UseUTC \<lparr>Level = InfoLevel, Format = JSONFormat, BufferSize = 0, UseUTC = True\<rparr>
   \<and> appendJSON amd64_cvt \<lparr>Level = InfoLevel, Format = JSONFormat, BufferSize = 0, UseUTC = True\<rparr>
        (sample_time\<lparr>zone_offset := - 18000\<rparr>) [] InfoLevel ''m'' []
       = Inr ''{"timestamp":"2024-01-20T15:04:05.123456789Z","level":"INFO","message":"m"}''\<close>
proof -
  have ns: "nsec sample_time < 10 ^ 9" by (simp add: sample_time_def)
  have u: "UseUTC \<lparr>Level = InfoLevel, Format = JSONFormat, BufferSize = 0, UseUTC = True\<rparr>"
    by simp
  note t = timestamp_text_utc_json_configured
             [where cvt = amd64_cvt
                and cfg = "\<lparr>Level = InfoLevel, Format = JSONFormat, BufferSize = 0, UseUTC = True\<rparr>"
                and now = sample_time and z = "- 18000" and buf = "[]" and level = InfoLevel
                and msg = "''m''" and flds = "[]"]
  from t u have "appendJSON amd64_cvt
        \<lparr>Level = InfoLevel, Format = JSONFormat, BufferSize = 0, UseUTC = True\<rparr>
        (sample_time\<lparr>zone_offset := - 18000\<rparr>) [] InfoLevel ''m'' []
      = appendJSON amd64_cvt
        \<lparr>Level = InfoLevel, Format = JSONFormat, BufferSize = 0, UseUTC = True\<rparr>
        sample_time [] InfoLevel ''m'' []"
    by blast
  then show ?thesis
    using ns u by (simp add: appendText_sample appendJSON_sample_local appendJSON_sample_utc)
qed

section \<open>Strings in text mode\<close>

lemma needsQuoting_iff:
  "needsQuoting v \<longleftrightarrow> (\<exists>c \<in> set v. c = CHR '' '' \<or> c = CHR ''='' \<or> c = dquote)"
  by (induction v) auto

lemma needsQuoting_append: "needsQuoting (a @ b) \<longleftrightarrow> needsQuoting a \<or> needsQuoting b"
  by (auto simp add: needsQuoting_iff)

lemma appendText_fields_append:
  "appendText_fields cvt buf (pre @ flds)
   = (case appendText_fields cvt buf pre of
        Inl e \<Rightarrow> Inl e
      | Inr b \<Rightarrow> appendText_fields cvt b flds)"
  by (induction pre arbitrary: buf) (simp_all split: sum.splits)

lemma appendText_fields_raw_quote:
  assumes "needsQuoting u" and "needsQuoting w"
  shows "appendText_fields cvt buf
           (\<lparr>Key = k, Value = VString (u @ [dquote] @ '' '' @ k' @ ''='' @ [dquote] @ w)\<rparr> # post)
         = appendText_fields cvt buf
           (\<lparr>Key = k, Value = VString u\<rparr> # \<lparr>Key = k', Value = VString w\<rparr> # post)"
  using assms by (simp add: appendValue_def needsQuoting_append)

text \<open>
  Claim C10: text mode never escapes a string value. A value with a space, an equals sign
  or a double quote is wrapped in double quotes and its bytes are copied as they are, so a
  double quote or a newline inside it reaches the record raw. And the record cannot be
  read back without ambiguity, because the raw double quote ends the value for a reader:
  for quoted values \<open>u\<close> and \<open>w\<close>, the single field \<open>k\<close> whose value is \<open>u\<close>, a double quote, a
  space, \<open>k'="\<close> and \<open>w\<close> gives, byte for byte, the record of the two fields \<open>k = u\<close> and
  \<open>k' = w\<close>, whatever fields come before and after.
\<close>

theorem text_string_values_not_escaped:
  "(needsQuoting v \<longleftrightarrow> (\<exists>c \<in> set v. c = CHR '' '' \<or> c = CHR ''='' \<or> c = dquote))
   \<and> (needsQuoting v \<longrightarrow>
        appendValue cvt buf (VString v) = Inr (buf @ [dquote] @ v @ [dquote]))
   \<and> (needsQuoting u \<and> needsQuoting w \<longrightarrow>
        appendText cvt cfg now buf level msg
          [\<lparr>Key = k, Value = VString (u @ [dquote] @ '' '' @ k' @ ''='' @ [dquote] @ w)\<rparr>]
          = Inr (buf @ Time_Format (UTC now) ''2006-01-02T15:04:05.000Z07:00'' @ '' ''
                 @ Level_String level @ '' '' @ msg
                 @ '' '' @ k @ ''='' @ [dquote] @ u @ [dquote]
                 @ '' '' @ k' @ ''='' @ [dquote] @ w @ [dquote])
        \<and> appendText cvt cfg now buf level msg
            [\<lparr>Key = k, Value = VString u\<rparr>, \<lparr>Key = k', Value = VString w\<rparr>]
          = Inr (buf @ Time_Format (UTC now) ''2006-01-02T15:04:05.000Z07:00'' @ '' ''
                 @ Level_String level @ '' '' @ msg
                 @ '' '' @ k @ ''='' @ [dquote] @ u @ [dquote]
                 @ '' '' @ k' @ ''='' @ [dquote] @ w @ [dquote])
        \<and> appendText cvt cfg now buf level msg
            (pre @ \<lparr>Key = k, Value = VString (u @ [dquote] @ '' '' @ k' @ ''='' @ [dquote] @ w)\<rparr>
                 # post)
          = appendText cvt cfg now buf level msg
            (pre @ \<lparr>Key = k, Value = VString u\<rparr> # \<lparr>Key = k', Value = VString w\<rparr> # post))"
proof (intro conjI impI)
  show "needsQuoting v \<longleftrightarrow> (\<exists>c \<in> set v. c = CHR '' '' \<or> c = CHR ''='' \<or> c = dquote)"
    by (rule needsQuoting_iff)
next
  assume "needsQuoting v"
  then show "appendValue cvt buf (VString v) = Inr (buf @ [dquote] @ v @ [dquote])"
    by (simp add: appendValue_def)
next
  assume "needsQuoting u \<and> needsQuoting w"
  then show "appendText cvt cfg now buf level msg
          [\<lparr>Key = k, Value = VString (u @ [dquote] @ '' '' @ k' @ ''='' @ [dquote] @ w)\<rparr>]
          = Inr (buf @ Time_Format (UTC now) ''2006-01-02T15:04:05.000Z07:00'' @ '' ''
                 @ Level_String level @ '' '' @ msg
                 @ '' '' @ k @ ''='' @ [dquote] @ u @ [dquote]
                 @ '' '' @ k' @ ''='' @ [dquote] @ w @ [dquote])"
    unfolding appendText_def Let_def by (simp add: appendValue_def needsQuoting_append)
next
  assume "needsQuoting u \<and> needsQuoting w"
  then show "appendText cvt cfg now buf level msg
            [\<lparr>Key = k, Value = VString u\<rparr>, \<lparr>Key = k', Value = VString w\<rparr>]
          = Inr (buf @ Time_Format (UTC now) ''2006-01-02T15:04:05.000Z07:00'' @ '' ''
                 @ Level_String level @ '' '' @ msg
                 @ '' '' @ k @ ''='' @ [dquote] @ u @ [dquote]
                 @ '' '' @ k' @ ''='' @ [dquote] @ w @ [dquote])"
    unfolding appendText_def Let_def by (simp add: appendValue_def)
next
  assume "needsQuoting u \<and> needsQuoting w"
  then have u: "needsQuoting u" and w: "needsQuoting w" by simp_all
  have "appendText_fields cvt b
           (\<lparr>Key = k, Value = VString (u @ [dquote] @ '' '' @ k' @ ''='' @ [dquote] @ w)\<rparr> # post)
         = appendText_fields cvt b
           (\<lparr>Key = k, Value = VString u\<rparr> # \<lparr>Key = k', Value = VString w\<rparr> # post)" for b
    using u w by (rule appendText_fields_raw_quote)
  then show "appendText cvt cfg now buf level msg
            (pre @ \<lparr>Key = k, Value = VString (u @ [dquote] @ '' '' @ k' @ ''='' @ [dquote] @ w)\<rparr>
                 # post)
          = appendText cvt cfg now buf level msg
            (pre @ \<lparr>Key = k, Value = VString u\<rparr> # \<lparr>Key = k', Value = VString w\<rparr> # post)"
    unfolding appendText_def Let_def by (simp only: appendText_fields_append)
qed

theorem text_string_values_not_escaped_witness:
  \<open>needsQuoting (''a'' @ [dquote, newline] @ ''b'')
   \<and> appendValue amd64_cvt ''k='' (VString (''a'' @ [dquote, newline] @ ''b''))
       = Inr (''k='' @ [dquote] @ ''a'' @ [dquote, newline] @ ''b'' @ [dquote])
   \<and> needsQuoting ''x y'' \<and> needsQuoting ''z w''
   \<and> appendText amd64_cvt
        \<lparr>Level = InfoLevel, Format = TextFormat, BufferSize = 0, UseUTC = True\<rparr>
        epoch [] InfoLevel ''m'' [\<lparr>Key = ''a'', Value = VString ''x y" b="z w''\<rparr>]
       = Inr ''1970-01-01T00:00:00.000Z INFO m a="x y" b="z w"''
   \<and> appendText amd64_cvt
        \<lparr>Level = InfoLevel, Format = TextFormat, BufferSize = 0, UseUTC = True\<rparr>
        epoch [] InfoLevel ''m''
        [\<lparr>Key = ''a'', Value = VString ''x y''\<rparr>, \<lparr>Key = ''b'', Value = VString ''z w''\<rparr>]
       = Inr ''1970-01-01T00:00:00.000Z INFO m a="x y" b="z w"''\<close>
  using text_string_values_not_escaped
          [where v = "''a'' @ [dquote, newline] @ ''b''" and cvt = amd64_cvt and buf = "''k=''"]
        text_string_values_not_escaped
          [where u = "''x y''" and w = "''z w''" and k = "''a''" and k' = "''b''"
             and cvt = amd64_cvt and buf = "[]" and now = epoch and level = InfoLevel
             and msg = "''m''"
             and cfg = "\<lparr>Level = InfoLevel, Format = TextFormat, BufferSize = 0, UseUTC = True\<rparr>"]
  by (simp add: Time_Format_epoch_text Level_String_Info)

section \<open>The scratch buffer that goes back to the pool\<close>

lemma log_above_minimum:
  assumes "\<not> level <s Level (config l)"
  shows "\<exists>enc. log cvt now l level msg flds
           = Inr (pool_Put (Logger_write (snd (pool_Get l)) enc)
                    ((fst (pool_Get l))\<lparr>bytes_of := []\<rparr>))"
proof -
  obtain got l1 where g: "pool_Get l = (got, l1)" by (cases "pool_Get l") auto
  obtain enc where
    "(if Format (config l1) = JSONFormat
      then appendJSON cvt (config l1) now [] level msg flds
      else appendText cvt (config l1) now [] level msg flds) = Inr enc"
    using appendJSON_extends [of cvt "config l1" now "[]" level msg flds]
          appendText_extends [of cvt "config l1" now "[]" level msg flds]
    by (cases "Format (config l1) = JSONFormat") auto
  then have "log cvt now l level msg flds
      = Inr (pool_Put (Logger_write l1 enc) (got\<lparr>bytes_of := []\<rparr>))"
    using assms g by (auto simp add: log_def Let_def split: if_splits)
  then show ?thesis using g by auto
qed

lemma pool_Logger_write: "pool (Logger_write l buf) = pool l"
  by (simp add: Logger_write_def flush_def Let_def)

lemma pool_pool_Get: "pool (snd (pool_Get l)) = tl (pool l)"
  by (simp add: pool_Get_def split: list.splits)

text \<open>
  What a call at or above the minimum level hands back to the pool is the slice that
  \<open>Get\<close> gave, cut to length zero: the argument of \<open>Put\<close> is fixed at the \<open>defer\<close> statement,
  before anything is encoded, so its capacity is the one the slice had when it was taken.
\<close>

lemma scratch_buffer_returned_as_acquired:
  assumes "\<not> level <s Level (config l)"
  shows "\<exists>l'. log cvt now l level msg flds = Inr l'
           \<and> pool l' = (fst (pool_Get l))\<lparr>bytes_of := []\<rparr> # tl (pool l)
           \<and> bytes_of (hd (pool l')) = []
           \<and> cap (hd (pool l')) = cap (fst (pool_Get l))
           \<and> fst (pool_Get l) = (case pool l of [] \<Rightarrow> pool_New | b # bs \<Rightarrow> b)"
proof -
  obtain enc where
    "log cvt now l level msg flds
       = Inr (pool_Put (Logger_write (snd (pool_Get l)) enc)
                ((fst (pool_Get l))\<lparr>bytes_of := []\<rparr>))"
    using log_above_minimum [OF assms] by blast
  moreover have "fst (pool_Get l) = (case pool l of [] \<Rightarrow> pool_New | b # bs \<Rightarrow> b)"
    by (simp add: pool_Get_def split: list.splits)
  ultimately show ?thesis
    by (simp add: pool_Put_def pool_Logger_write pool_pool_Get)
qed

lemma log_text_record_300:
  "log amd64_cvt epoch
     \<lparr>config = \<lparr>Level = InfoLevel, Format = TextFormat, BufferSize = 0, UseUTC = True\<rparr>,
      buffer = [], pool = [], trace = []\<rparr>
     InfoLevel (replicate 300 (CHR ''x'')) []
   = Inr \<lparr>config = \<lparr>Level = InfoLevel, Format = TextFormat, BufferSize = 0, UseUTC = True\<rparr>,
          buffer = [],
          pool = [\<lparr>bytes_of = [], cap = 256\<rparr>],
          trace = [PoolGet \<lparr>bytes_of = [], cap = 256\<rparr>,
                   OutputWrite (''1970-01-01T00:00:00.000Z INFO '' @ replicate 300 (CHR ''x'')),
                   OutputWrite [newline],
                   PoolPut \<lparr>bytes_of = [], cap = 256\<rparr>]\<rparr>"
proof -
  have lv: "\<not> InfoLevel <s InfoLevel" by simp
  have fm: "TextFormat \<noteq> JSONFormat" by (simp add: TextFormat_def JSONFormat_def)
  have enc: "appendText amd64_cvt cfg epoch [] InfoLevel (replicate 300 (CHR ''x'')) []
               = Inr (''1970-01-01T00:00:00.000Z INFO '' @ replicate 300 (CHR ''x''))" for cfg
    by (simp add: appendText_def Time_Format_epoch_text Level_String_Info)
  show ?thesis
    using lv fm
    by (simp add: log_def pool_Get_def pool_New_def pool_Put_def Logger_write_def enc Let_def)
qed

lemma scratch_buffer_returned_as_acquired_at_512:
  "\<not> InfoLevel <s Level (config
        \<lparr>config = \<lparr>Level = InfoLevel, Format = TextFormat, BufferSize = 0, UseUTC = True\<rparr>,
         buffer = [], pool = [\<lparr>bytes_of = [], cap = 512\<rparr>], trace = []\<rparr>)
   \<and> (\<exists>l'. log amd64_cvt epoch
        \<lparr>config = \<lparr>Level = InfoLevel, Format = TextFormat, BufferSize = 0, UseUTC = True\<rparr>,
         buffer = [], pool = [\<lparr>bytes_of = [], cap = 512\<rparr>], trace = []\<rparr>
        InfoLevel ''started'' [] = Inr l'
      \<and> pool l' = [\<lparr>bytes_of = [], cap = 512\<rparr>])"
proof -
  have h: "\<not> InfoLevel <s Level (config
        \<lparr>config = \<lparr>Level = InfoLevel, Format = TextFormat, BufferSize = 0, UseUTC = True\<rparr>,
         buffer = [], pool = [\<lparr>bytes_of = [], cap = 512\<rparr>], trace = []\<rparr>)"
    by simp
  from scratch_buffer_returned_as_acquired [OF h, of amd64_cvt epoch "''started''" "[]"]
  have "\<exists>l'. log amd64_cvt epoch
        \<lparr>config = \<lparr>Level = InfoLevel, Format = TextFormat, BufferSize = 0, UseUTC = True\<rparr>,
         buffer = [], pool = [\<lparr>bytes_of = [], cap = 512\<rparr>], trace = []\<rparr>
        InfoLevel ''started'' [] = Inr l'
      \<and> pool l' = [\<lparr>bytes_of = [], cap = 512\<rparr>]"
    by (simp add: pool_Get_def) blast
  then show ?thesis using h by blast
qed

text \<open>
  Claim C3: every scratch buffer handed back to the pool has length zero, and when a log
  call grows its scratch buffer while encoding, the buffer returned to the pool retains the
  grown capacity. The code resets the buffer and reassigns \<open>buf\<close> after encoding, but
  \<open>defer l.pool.Put(buf)\<close> has taken its argument before: the grown buffer never reaches
  the pool. A fresh unbuffered text logger takes a scratch buffer of capacity 256 from the
  empty pool and encodes a record of 330 bytes, which does not fit it; the encoded record
  reaches the output in full, and the slice the pool gets back has length zero and still
  capacity 256, less than the 330 bytes of the record that was encoded in the grown buffer.
\<close>

theorem grown_scratch_buffer_not_retained:
  "log amd64_cvt epoch
     \<lparr>config = \<lparr>Level = InfoLevel, Format = TextFormat, BufferSize = 0, UseUTC = True\<rparr>,
      buffer = [], pool = [], trace = []\<rparr>
     InfoLevel (replicate 300 (CHR ''x'')) []
   = Inr \<lparr>config = \<lparr>Level = InfoLevel, Format = TextFormat, BufferSize = 0, UseUTC = True\<rparr>,
          buffer = [],
          pool = [\<lparr>bytes_of = [], cap = 256\<rparr>],
          trace = [PoolGet \<lparr>bytes_of = [], cap = 256\<rparr>,
                   OutputWrite (''1970-01-01T00:00:00.000Z INFO '' @ replicate 300 (CHR ''x'')),
                   OutputWrite [newline],
                   PoolPut \<lparr>bytes_of = [], cap = 256\<rparr>]\<rparr>
   \<and> length (''1970-01-01T00:00:00.000Z INFO '' @ replicate 300 (CHR ''x'')) = 330
   \<and> \<not> (330::nat) \<le> cap \<lparr>bytes_of = [], cap = 256\<rparr>"
  using log_text_record_300 by simp

section \<open>Reading back what the JSON encoder wrote\<close>

subsection \<open>Strings\<close>

text \<open>
  Well-formed UTF-8 on a few byte strings: the euro sign and an emoji followed by a letter
  are well formed; an overlong form, a surrogate, a code point above U+10FFFF, a sequence
  cut short and a lone continuation byte are not.
\<close>

lemma well_formed_utf8_examples:
  "well_formed_utf8 [CHR 0xE2, CHR 0x82, CHR 0xAC]"
  "well_formed_utf8 [CHR 0xF0, CHR 0x9F, CHR 0x98, CHR 0x80, CHR ''a'']"
  "\<not> well_formed_utf8 [CHR 0xC0, CHR 0x80]"
  "\<not> well_formed_utf8 [CHR 0xED, CHR 0xA0, CHR 0x80]"
  "\<not> well_formed_utf8 [CHR 0xF4, CHR 0x90, CHR 0x80, CHR 0x80]"
  "\<not> well_formed_utf8 [CHR 0xE2, CHR 0x82]"
  "\<not> well_formed_utf8 [CHR 0x80]"
  by (simp_all add: utf8_tail_def utf8_ranges_def)

lemma in_ranges_length: "in_ranges rs cs \<Longrightarrow> length rs \<le> length cs"
  by (induction rs cs rule: in_ranges.induct) simp_all

lemma in_ranges_prefix: "in_ranges rs cs \<Longrightarrow> in_ranges rs (take (length rs) cs @ t)"
  by (induction rs cs rule: in_ranges.induct) simp_all

lemma in_ranges_high:
  "in_ranges rs cs \<Longrightarrow> \<forall>r \<in> set rs. 128 \<le> fst r \<Longrightarrow>
   \<forall>d \<in> set (take (length rs) cs). 128 \<le> (of_char d :: nat)"
  by (induction rs cs rule: in_ranges.induct) auto

lemma utf8_ranges_high: "utf8_ranges b = Some rs \<Longrightarrow> \<forall>r \<in> set rs. 128 \<le> fst r"
  by (auto simp add: utf8_ranges_def split: if_splits)

lemma utf8_tail_Some:
  assumes "utf8_tail c cs = Some n"
  shows "n \<le> length cs"
    and "\<forall>d \<in> set (take n cs). 128 \<le> (of_char d :: nat)"
    and "utf8_tail c (take n cs @ t) = Some n"
proof -
  obtain rs where rs: "utf8_ranges (of_char c) = Some rs" and i: "in_ranges rs cs"
    and n: "n = length rs"
    using assms by (auto simp add: utf8_tail_def split: option.splits if_splits)
  show "n \<le> length cs" using i n by (simp add: in_ranges_length)
  show "\<forall>d \<in> set (take n cs). 128 \<le> (of_char d :: nat)"
    using in_ranges_high [OF i utf8_ranges_high [OF rs]] n by simp
  show "utf8_tail c (take n cs @ t) = Some n"
    using in_ranges_prefix [OF i, of t] rs n by (simp add: utf8_tail_def)
qed

lemma escape_byte_high: "128 \<le> (of_char c :: nat) \<Longrightarrow> escape_byte c = [c]"
  by (auto simp add: escape_byte_def)

lemma escape_high: "\<forall>d \<in> set t. 128 \<le> (of_char d :: nat) \<Longrightarrow> concat (map escape_byte t) = t"
  by (induction t) (simp_all add: escape_byte_high)

lemma well_formed_utf8_ascii: "\<forall>c \<in> set s. (of_char c :: nat) < 128 \<Longrightarrow> well_formed_utf8 s"
  by (induction s) simp_all

lemma json_safe_low:
  assumes "(of_char c :: nat) < 128" and "json_safe (c # s)"
  shows "32 \<le> (of_char c :: nat) \<or> c = newline \<or> c = carriage_return \<or> c = tab"
    and "json_safe s"
  using assms by (simp_all add: json_safe_def)

lemma json_safe_high:
  assumes "\<not> (of_char c :: nat) < 128" and "json_safe (c # s)"
  shows "\<exists>n. utf8_tail c s = Some n \<and> json_safe (drop n s)"
proof -
  obtain n where t: "utf8_tail c s = Some n" and w: "well_formed_utf8 (drop n s)"
    using assms by (auto simp add: json_safe_def split: option.splits)
  have "set (drop n s) \<subseteq> set s" by (rule set_drop_subset)
  then have "json_safe (drop n s)" using w assms(2) by (auto simp add: json_safe_def)
  then show ?thesis using t by blast
qed

lemma parse_string_body_escape_byte:
  assumes "32 \<le> (of_char c :: nat) \<or> c = newline \<or> c = carriage_return \<or> c = tab"
    and "(of_char c :: nat) < 128"
  shows "parse_string_body (escape_byte c @ s) = cons_result [c] (parse_string_body s)"
proof -
  consider "c = dquote" | "c = backslash" | "c = newline" | "c = carriage_return" | "c = tab"
    | "c \<noteq> dquote" "c \<noteq> backslash" "c \<noteq> newline" "c \<noteq> carriage_return" "c \<noteq> tab"
    by blast
  then show ?thesis
  proof cases
    case 6
    then have "32 \<le> (of_char c :: nat)" using assms(1) by blast
    then show ?thesis using 6 assms(2) by (simp add: escape_byte_def)
  qed (simp_all add: escape_byte_def unescape_def)
qed

lemma parse_string_body_escaped:
  "json_safe s \<Longrightarrow>
   parse_string_body (concat (map escape_byte s) @ dquote # rest) = Some (s, rest)"
proof (induction s rule: well_formed_utf8.induct)
  case 1
  show ?case by simp
next
  case (2 c cs)
  show ?case
  proof (cases "(of_char c :: nat) < 128")
    case True
    note c = json_safe_low [OF True "2.prems"]
    have "parse_string_body (concat (map escape_byte (c # cs)) @ dquote # rest)
            = parse_string_body (escape_byte c @ (concat (map escape_byte cs) @ dquote # rest))"
      by simp
    also have "\<dots> = cons_result [c] (parse_string_body (concat (map escape_byte cs) @ dquote # rest))"
      using c(1) True by (rule parse_string_body_escape_byte)
    also have "\<dots> = Some (c # cs, rest)"
      using "2.IH"(1) [OF True c(2)] by (simp add: cons_result_def)
    finally show ?thesis .
  next
    case False
    obtain n where t: "utf8_tail c cs = Some n" and s: "json_safe (drop n cs)"
      using json_safe_high [OF False "2.prems"] by blast
    note f = utf8_tail_Some [OF t]
    let ?E = "concat (map escape_byte (drop n cs)) @ dquote # rest"
    have hc: "escape_byte c = [c]" using False by (simp add: escape_byte_high)
    have "concat (map escape_byte (take n cs @ drop n cs))
            = concat (map escape_byte (take n cs)) @ concat (map escape_byte (drop n cs))"
      by (simp only: map_append concat_append)
    then have "concat (map escape_byte cs) = take n cs @ concat (map escape_byte (drop n cs))"
      using escape_high [OF f(2)] by simp
    then have e: "concat (map escape_byte (c # cs)) @ dquote # rest = c # take n cs @ ?E"
      using hc by simp
    have ne: "c \<noteq> dquote" "c \<noteq> backslash" "\<not> (of_char c :: nat) < 32"
      using False by auto
    have tk: "take n (take n cs @ ?E) = take n cs" "drop n (take n cs @ ?E) = ?E"
      using f(1) by simp_all
    have step: "parse_string_body (c # t)
            = (case utf8_tail c t of
                 None \<Rightarrow> None
               | Some k \<Rightarrow> cons_result (c # take k t) (parse_string_body (drop k t)))" for t
      using ne False by simp
    have "parse_string_body (c # take n cs @ ?E)
            = cons_result (c # take n (take n cs @ ?E))
                (parse_string_body (drop n (take n cs @ ?E)))"
      unfolding step f(3) [of ?E] by simp
    then have "parse_string_body (c # take n cs @ ?E)
            = cons_result (c # take n cs) (parse_string_body ?E)"
      by (simp only: tk)
    also have "\<dots> = Some (c # cs, rest)"
      using "2.IH"(2) [OF False t s] by (simp add: cons_result_def)
    finally show ?thesis by (simp only: e)
  qed
qed

lemma json_plain_append [simp]: "json_plain (s @ t) \<longleftrightarrow> json_plain s \<and> json_plain t"
  by (auto simp add: json_plain_def)

lemma json_plain_Cons:
  "json_plain (c # s) \<longleftrightarrow>
     (32 \<le> (of_char c :: nat) \<and> (of_char c :: nat) < 128 \<and> c \<noteq> dquote \<and> c \<noteq> backslash)
     \<and> json_plain s"
  by (simp add: json_plain_def)

lemma json_plain_Nil [simp]: "json_plain []"
  by (simp add: json_plain_def)

lemma escape_plain: "json_plain s \<Longrightarrow> concat (map escape_byte s) = s"
proof (induction s)
  case Nil
  show ?case by simp
next
  case (Cons c s)
  then have "32 \<le> (of_char c :: nat)" "c \<noteq> dquote" "c \<noteq> backslash" "json_plain s"
    by (simp_all add: json_plain_Cons)
  moreover from this have "c \<noteq> newline" "c \<noteq> carriage_return" "c \<noteq> tab" by auto
  ultimately show ?case using Cons.IH by (simp add: escape_byte_def)
qed

lemma json_plain_safe: "json_plain s \<Longrightarrow> json_safe s"
  by (auto simp add: json_plain_def json_safe_def intro: well_formed_utf8_ascii)

lemma parse_string_body_plain:
  "json_plain s \<Longrightarrow> parse_string_body (s @ dquote # rest) = Some (s, rest)"
  using parse_string_body_escaped [of s rest] by (simp add: escape_plain json_plain_safe)

subsection \<open>Numbers\<close>

lemma is_digit_simps:
  "\<not> is_digit (CHR '','')" "\<not> is_digit (CHR ''}'')" "\<not> is_digit (CHR ''.'')"
  "\<not> is_digit (CHR ''-'')" "is_digit (CHR ''0'')"
  by (simp_all add: is_digit_def)

lemma takeWhile_digits:
  "\<not> is_digit c \<Longrightarrow> takeWhile is_digit (decimal_nat n @ c # rest) = decimal_nat n"
  using decimal_nat_digits [of n] by (simp add: takeWhile_append2)

lemma dropWhile_digits:
  "\<not> is_digit c \<Longrightarrow> dropWhile is_digit (decimal_nat n @ c # rest) = c # rest"
  using decimal_nat_digits [of n] by (simp add: dropWhile_append2)

lemma decimal_nat_Cons: "\<exists>d ds. decimal_nat n = d # ds \<and> is_digit d \<and> (d = CHR ''0'' \<longrightarrow> n = 0)"
proof -
  obtain d ds where e: "decimal_nat n = d # ds"
    using decimal_nat_nonempty [of n] by (cases "decimal_nat n") auto
  then have "is_digit d" using decimal_nat_digits [of n] by simp
  moreover have "d = CHR ''0'' \<longrightarrow> n = 0"
    using decimal_nat_no_leading_zero [of n] e by (cases "n = 0") auto
  ultimately show ?thesis using e by blast
qed

lemma decimal_nat_0: "decimal_nat 0 = [CHR ''0'']"
  by (simp add: decimal_nat.simps digit_char_0)

lemma number_int_decimal:
  assumes "\<not> is_digit x"
  shows "number_int (decimal_nat n @ x # xs) = Some (decimal_nat n, x # xs)"
proof -
  obtain d ds where e: "decimal_nat n = d # ds" and dg: "is_digit d"
    and z: "d = CHR ''0'' \<longrightarrow> n = 0"
    using decimal_nat_Cons by blast
  show ?thesis
  proof (cases "d = CHR ''0''")
    case True
    then have "n = 0" using z by simp
    then have "ds = []" using e by (simp add: decimal_nat_0)
    then show ?thesis using True e dg by (simp add: number_int_def)
  next
    case False
    have tw: "takeWhile is_digit (d # ds @ x # xs) = d # ds"
      using takeWhile_digits [OF assms, of n xs] e by simp
    have dw: "dropWhile is_digit (d # ds @ x # xs) = x # xs"
      using dropWhile_digits [OF assms, of n xs] e by simp
    show ?thesis
      using False e dg tw dw by (simp add: number_int_def del: takeWhile.simps dropWhile.simps)
  qed
qed

lemma number_frac_none: "closes_value c \<Longrightarrow> number_frac (c # rest) = Some ([], c # rest)"
  by (auto simp add: number_frac_def closes_value_def)

lemma number_frac_digits:
  assumes "\<not> is_digit c"
  shows "number_frac (CHR ''.'' # decimal_nat n @ c # rest) = Some (CHR ''.'' # decimal_nat n, c # rest)"
  using takeWhile_digits [OF assms, of n rest] dropWhile_digits [OF assms, of n rest]
    decimal_nat_nonempty [of n]
  by (simp add: number_frac_def)

lemma number_exp_none: "closes_value c \<Longrightarrow> number_exp (c # rest) = Some ([], c # rest)"
  by (auto simp add: number_exp_def closes_value_def)

lemma number_shape_decimal_int: "number_shape (decimal_int k)"
proof (cases "k < 0")
  case True
  then have "decimal_int k = [CHR ''-''] @ decimal_nat (nat (- k)) @ []"
    by (simp add: decimal_int_def)
  then show ?thesis unfolding number_shape_def by blast
next
  case False
  then have "decimal_int k = [] @ decimal_nat (nat k) @ []" by (simp add: decimal_int_def)
  then show ?thesis unfolding number_shape_def by blast
qed

lemma parse_number_shape:
  assumes "number_shape t" and "closes_value c"
  shows "parse_number (t @ c # rest) = Some (t, c # rest)"
proof -
  obtain sg n frac where t: "t = sg @ decimal_nat n @ frac"
    and sg: "sg = [] \<or> sg = [CHR ''-'']"
    and frac: "frac = [] \<or> (\<exists>n'. frac = CHR ''.'' # decimal_nat n')"
    using assms(1) unfolding number_shape_def by blast
  have nd: "\<not> is_digit c" using assms(2) by (auto simp add: closes_value_def is_digit_def)
  obtain d ds where e: "decimal_nat n = d # ds" and dg: "is_digit d"
    using decimal_nat_Cons by blast
  have dm: "d \<noteq> CHR ''-''" using dg is_digit_simps(4) by auto
  have sign: "number_sign (sg @ decimal_nat n @ frac @ c # rest) = (sg, decimal_nat n @ frac @ c # rest)"
    using sg e dm by (auto simp add: number_sign_def)
  have rest3: "number_int (decimal_nat n @ frac @ c # rest) = Some (decimal_nat n, frac @ c # rest)
               \<and> number_frac (frac @ c # rest) = Some (frac, c # rest)"
  proof (cases "frac = []")
    case True
    then show ?thesis
      using number_int_decimal [OF nd, of n rest] number_frac_none [OF assms(2), of rest] by simp
  next
    case False
    then obtain n' where f: "frac = CHR ''.'' # decimal_nat n'" using frac by blast
    have "number_int (decimal_nat n @ CHR ''.'' # decimal_nat n' @ c # rest)
            = Some (decimal_nat n, CHR ''.'' # decimal_nat n' @ c # rest)"
      using is_digit_simps(3) by (rule number_int_decimal)
    then show ?thesis using number_frac_digits [OF nd, of n' rest] by (simp add: f)
  qed
  show ?thesis
    using sign rest3 number_exp_none [OF assms(2), of rest] by (simp add: parse_number_def t)
qed

lemma number_shape_first:
  assumes "number_shape t"
  shows "\<exists>d ds. t = d # ds \<and> (d = CHR ''-'' \<or> is_digit d)"
proof -
  obtain sg n frac where t: "t = sg @ decimal_nat n @ frac"
    and sg: "sg = [] \<or> sg = [CHR ''-'']"
    using assms unfolding number_shape_def by blast
  obtain d ds where "decimal_nat n = d # ds" "is_digit d"
    using decimal_nat_Cons by blast
  then show ?thesis using t sg by auto
qed

subsection \<open>Values\<close>

lemma appendJSONValue_exact:
  "json_exact v \<Longrightarrow> appendJSONValue cvt buf v = Inr (buf @ value_text v)"
  by (cases v)
     (simp_all add: json_exact_def value_text_def appendJSONValue_def appendJSONString_eq
        appendInt_decimal escape_byte_def appendJSONFloat_float_text)

lemma not_ws_simps:
  "\<not> is_ws dquote" "\<not> is_ws (CHR '':'')" "\<not> is_ws (CHR '','')" "\<not> is_ws (CHR ''}'')"
  "\<not> is_ws (CHR ''{'')" "\<not> is_ws (CHR ''-'')" "\<not> is_ws (CHR ''t'')" "\<not> is_ws (CHR ''f'')"
  by (simp_all add: is_ws_def)

lemma skip_ws_Cons: "\<not> is_ws c \<Longrightarrow> skip_ws (c # s) = c # s"
  by (simp add: skip_ws_def)

lemma is_digit_not_ws: "is_digit c \<Longrightarrow> \<not> is_ws c"
  by (auto simp add: is_digit_def is_ws_def)

lemma parse_value_string:
  "json_safe s \<Longrightarrow>
   parse_value (Suc n) (dquote # concat (map escape_byte s) @ dquote # rest) = Some (JString s, rest)"
  by (simp add: parse_value.simps skip_ws_Cons not_ws_simps parse_string_body_escaped)

lemma parse_value_plain_string:
  "json_plain s \<Longrightarrow> parse_value (Suc n) (dquote # s @ dquote # rest) = Some (JString s, rest)"
  by (simp add: parse_value.simps skip_ws_Cons not_ws_simps parse_string_body_plain)

lemma parse_value_number:
  assumes "number_shape t" and "closes_value c"
  shows "parse_value (Suc n) (t @ c # rest) = Some (JNumber t, c # rest)"
proof -
  obtain d ds where e: "t = d # ds" and d: "d = CHR ''-'' \<or> is_digit d"
    using number_shape_first [OF assms(1)] by blast
  have nws: "\<not> is_ws d" using d not_ws_simps(6) is_digit_not_ws by blast
  have ne: "d \<noteq> CHR ''{''" "d \<noteq> CHR ''[''" "d \<noteq> dquote" "d \<noteq> CHR ''t''" "d \<noteq> CHR ''f''"
    "d \<noteq> CHR ''n''"
    using d by (auto simp add: is_digit_def)
  have "parse_number (d # ds @ c # rest) = Some (d # ds, c # rest)"
    using parse_number_shape [OF assms, of rest] e by simp
  then show ?thesis
    using e nws ne by (simp add: parse_value.simps skip_ws_Cons del: parse_string_body.simps)
qed

lemma parse_value_exact:
  assumes "json_exact v" and "closes_value c"
  shows "parse_value (Suc n) (value_text v @ c # rest) = Some (json_of_value v, c # rest)"
proof (cases v)
  case (VString s)
  then show ?thesis
    using assms(1) parse_value_string [of s n "c # rest"]
    by (simp add: json_exact_def value_text_def json_of_value_def)
next
  case (VInt i)
  then show ?thesis
    using parse_value_number [OF number_shape_decimal_int assms(2)]
    by (simp add: value_text_def json_of_value_def)
next
  case (VInt64 i)
  then show ?thesis
    using parse_value_number [OF number_shape_decimal_int assms(2)]
    by (simp add: value_text_def json_of_value_def)
next
  case (VFloat64 f)
  then have "number_shape (float_text f)"
    using assms(1) by (simp add: json_exact_def appendJSONFloat_float_text)
  then show ?thesis
    using VFloat64 parse_value_number [OF _ assms(2)]
    by (simp add: value_text_def json_of_value_def)
next
  case (VBool b)
  then show ?thesis
    by (cases b)
       (simp_all add: parse_value.simps value_text_def json_of_value_def skip_ws_Cons
          not_ws_simps)
next
  case VOther
  have "json_safe ''unknown''" by (simp add: json_safe_def)
  then have "parse_value (Suc n) (dquote # concat (map escape_byte ''unknown'') @ dquote # c # rest)
               = Some (JString ''unknown'', c # rest)"
    by (rule parse_value_string)
  then show ?thesis using VOther
    by (simp add: value_text_def json_of_value_def escape_byte_def)
qed

subsection \<open>Members\<close>

lemma parse_one_member:
  assumes "reads_as m" and "closes_value c"
  shows "parse_members (Suc (Suc n)) (member_text m @ c # rest)
           = (if c = CHR '','' then
                (case parse_members (Suc n) rest of
                   None \<Rightarrow> None
                 | Some (ms, rest') \<Rightarrow> Some (member_json m # ms, rest'))
              else Some ([member_json m], rest))"
proof -
  obtain k vt j where m: "m = (k, vt, j)" by (cases m) auto
  have k: "json_safe k"
    and v: "parse_value (Suc n) (vt @ c # rest) = Some (j, c # rest)"
    using assms by (simp_all add: reads_as_def m)
  have key: "parse_string_body (concat (map escape_byte k) @ dquote # CHR '':'' # vt @ c # rest)
               = Some (k, CHR '':'' # vt @ c # rest)"
    using k by (rule parse_string_body_escaped)
  have c: "c = CHR '','' \<or> c = CHR ''}''"
    using assms(2) by (simp add: closes_value_def)
  have "parse_members (Suc (Suc n)) (dquote # concat (map escape_byte k) @ dquote # CHR '':'' # vt @ c # rest)
          = (if c = CHR '','' then
               (case parse_members (Suc n) rest of
                  None \<Rightarrow> None
                | Some (ms, rest') \<Rightarrow> Some ((k, j) # ms, rest'))
             else Some ([(k, j)], rest))"
  proof (cases "c = CHR '',''")
    case True
    then show ?thesis
      using key v
      by (simp add: parse_members.simps(2) skip_ws_Cons not_ws_simps
            del: parse_string_body.simps)
  next
    case False
    then have "c = CHR ''}''" using c by simp
    then show ?thesis
      using key v
      by (simp add: parse_members.simps(2) skip_ws_Cons not_ws_simps
            del: parse_string_body.simps)
  qed
  moreover have "member_json m = (k, j)" by (simp add: member_json_def m)
  moreover have "member_text m @ c # rest
      = dquote # concat (map escape_byte k) @ dquote # CHR '':'' # vt @ c # rest"
    by (simp add: member_text_def m)
  ultimately show ?thesis by (simp only:)
qed

lemma parse_members_list:
  assumes "\<forall>m \<in> set (m0 # ms). reads_as m"
  shows "parse_members (Suc (Suc (length ms + n)))
           (member_text m0 @ concat (map (\<lambda>m. CHR '','' # member_text m) ms) @ CHR ''}'' # rest)
         = Some (map member_json (m0 # ms), rest)"
  using assms
proof (induction ms arbitrary: m0)
  case Nil
  then have "reads_as m0" by simp
  then show ?case
    using parse_one_member [of m0 "CHR ''}''" n rest] by (simp add: closes_value_def)
next
  case (Cons m1 ms)
  then have r0: "reads_as m0" and rs: "\<forall>m \<in> set (m1 # ms). reads_as m" by simp_all
  let ?tail = "member_text m1 @ concat (map (\<lambda>m. CHR '','' # member_text m) ms) @ CHR ''}'' # rest"
  have "parse_members (Suc (Suc (length (m1 # ms) + n)))
          (member_text m0 @ CHR '','' # ?tail)
        = (case parse_members (Suc (length (m1 # ms) + n)) ?tail of
             None \<Rightarrow> None
           | Some (ms', rest') \<Rightarrow> Some (member_json m0 # ms', rest'))"
    using parse_one_member [OF r0, of "CHR '',''" "length (m1 # ms) + n" ?tail]
    by (simp add: closes_value_def)
  also have "parse_members (Suc (length (m1 # ms) + n)) ?tail = Some (map member_json (m1 # ms), rest)"
    using Cons.IH [OF rs] by simp
  finally show ?case by simp
qed

subsection \<open>The timestamp and the level name need no escaping\<close>

lemma json_plain_digits: "\<forall>c \<in> set s. is_digit c \<Longrightarrow> json_plain s"
  by (auto simp add: json_plain_def is_digit_def)

lemma json_plain_decimal_nat: "json_plain (decimal_nat n)"
  using decimal_nat_digits by (rule json_plain_digits)

lemma json_plain_pad_nat: "json_plain (pad_nat w n)"
  by (simp add: pad_nat_def json_plain_decimal_nat) (simp add: json_plain_def)

lemma json_plain_pad_int: "json_plain (pad_int w k)"
  by (simp add: pad_int_def json_plain_Cons json_plain_pad_nat)

lemma json_plain_format_clock: "json_plain (format_clock t)"
  by (simp add: format_clock_def Let_def json_plain_Cons json_plain_pad_int split: prod.splits)

lemma json_plain_subset: "json_plain s \<Longrightarrow> set t \<subseteq> set s \<Longrightarrow> json_plain t"
  by (auto simp add: json_plain_def)

lemma json_plain_frac_trimmed: "json_plain (frac_trimmed ns)"
proof -
  have "set (rev (dropWhile (\<lambda>c. c = CHR ''0'') (rev (pad_nat 9 ns)))) \<subseteq> set (pad_nat 9 ns)"
    using set_dropWhileD [of _ "\<lambda>c. c = CHR ''0''" "rev (pad_nat 9 ns)"] by auto
  then have "json_plain (rev (dropWhile (\<lambda>c. c = CHR ''0'') (rev (pad_nat 9 ns))))"
    using json_plain_pad_nat json_plain_subset by blast
  then show ?thesis by (simp add: frac_trimmed_def json_plain_Cons)
qed

lemma json_plain_format_zone: "json_plain (format_zone z)"
  by (simp add: format_zone_def Let_def json_plain_Cons json_plain_pad_int split: prod.splits)

lemma json_plain_Time_Format: "json_plain (Time_Format t RFC3339Nano)"
  by (simp add: Time_Format_RFC3339Nano json_plain_format_clock json_plain_frac_trimmed
      json_plain_format_zone)

lemma json_plain_Level_String: "json_plain (Level_String l)"
  by (simp add: Level_String_def json_plain_Cons)

subsection \<open>A record is an object of members\<close>

lemma appendJSON_fields_exact:
  "\<forall>f \<in> set flds. json_exact (Value f) \<Longrightarrow>
   appendJSON_fields cvt buf flds
     = Inr (buf @ concat (map (\<lambda>m. CHR '','' # member_text m) (map field_member flds)))"
proof (induction flds arbitrary: buf)
  case Nil
  show ?case by simp
next
  case (Cons f flds)
  then have v: "json_exact (Value f)" and rest: "\<forall>f \<in> set flds. json_exact (Value f)"
    by simp_all
  show ?case
    by (simp add: appendJSONString_eq appendJSONValue_exact [OF v] Cons.IH [OF rest]
          member_text_def field_member_def)
qed

lemma appendJSON_members:
  assumes "\<forall>f \<in> set flds. json_exact (Value f)"
  shows "appendJSON cvt cfg now buf level msg flds
     = Inr (buf @ CHR ''{''
            # member_text (string_member ''timestamp''
                 (Time_Format (if UseUTC cfg then UTC now else now) RFC3339Nano))
            @ concat (map (\<lambda>m. CHR '','' # member_text m)
                 (string_member ''level'' (Level_String level) # string_member ''message'' msg
                  # map field_member flds))
            @ [CHR ''}''])"
  by (simp add: appendJSON_def Let_def appendJSONString_eq appendJSON_fields_exact [OF assms]
        member_text_def string_member_def escape_byte_def
        escape_plain [OF json_plain_Time_Format] escape_plain [OF json_plain_Level_String])

lemma reads_as_string_member: "json_safe k \<Longrightarrow> json_safe s \<Longrightarrow> reads_as (string_member k s)"
  by (simp add: reads_as_def string_member_def parse_value_string)

lemma reads_as_field_member:
  "json_safe (Key f) \<Longrightarrow> json_exact (Value f) \<Longrightarrow> reads_as (field_member f)"
  by (simp add: reads_as_def field_member_def parse_value_exact)

lemma length_concat_members: "length ms \<le> length (concat (map (\<lambda>m. CHR '','' # member_text m) ms))"
  by (induction ms) simp_all

lemma parse_json_object:
  assumes "\<forall>m \<in> set (m0 # ms). reads_as m"
  shows "parse_json (CHR ''{'' # member_text m0
                     @ concat (map (\<lambda>m. CHR '','' # member_text m) ms) @ [CHR ''}''])
         = Some (JObject (map member_json (m0 # ms)))"
proof -
  let ?body = "member_text m0 @ concat (map (\<lambda>m. CHR '','' # member_text m) ms) @ [CHR ''}'']"
  obtain t where t: "member_text m0 = dquote # t" by (simp add: member_text_def)
  have "Suc (length ms) \<le> length ?body"
    using length_concat_members [of ms] by (simp add: t)
  then obtain n where n: "length ?body = Suc (length ms + n)"
    by (metis Suc_le_D add_Suc le_Suc_ex)
  have "parse_members (Suc (Suc (length ms + n))) ?body = Some (map member_json (m0 # ms), [])"
    using parse_members_list [OF assms, of n "[]"] by simp
  then have "parse_members (length (CHR ''{'' # ?body)) ?body
               = Some (map member_json (m0 # ms), [])"
    using n by simp
  then have "parse_value (Suc (length (CHR ''{'' # ?body))) (CHR ''{'' # ?body)
               = Some (JObject (map member_json (m0 # ms)), [])"
    using t
    by (simp add: parse_value.simps(2) skip_ws_Cons not_ws_simps del: map_append list.map)
  then show ?thesis by (simp add: parse_json_def skip_ws_def del: list.map)
qed

text \<open>
  Claim C4, as amended: when the message, the field keys and the string values are
  well-formed UTF-8 and contain no control character other than newline, carriage return
  and tab, and every field value is a string, an integer other than the least \<open>int64\<close>, a
  finite \<open>float64\<close> whose integer part fits an \<open>int64\<close>, a boolean or a value of an
  unsupported type, the JSON record is a valid JSON text. It reads back as one object whose
  members are \<open>timestamp\<close>, \<open>level\<close>, \<open>message\<close> and then the fields in the order given,
  duplicate keys kept; strings, integers and booleans read back as the values that were
  logged, and a floating-point value as a number.
\<close>

theorem json_record_reads_back:
  assumes "json_safe msg"
    and "\<forall>f \<in> set flds. json_safe (Key f) \<and> json_exact (Value f)"
  shows "\<exists>out. appendJSON cvt cfg now [] level msg flds = Inr out
           \<and> parse_json out
             = Some (JObject
                 ((''timestamp'',
                     JString (Time_Format (if UseUTC cfg then UTC now else now) RFC3339Nano))
                  # (''level'', JString (Level_String level))
                  # (''message'', JString msg)
                  # map (\<lambda>f. (Key f, json_of_value (Value f))) flds))"
proof -
  let ?ts = "Time_Format (if UseUTC cfg then UTC now else now) RFC3339Nano"
  let ?m0 = "string_member ''timestamp'' ?ts"
  let ?ms = "string_member ''level'' (Level_String level) # string_member ''message'' msg
             # map field_member flds"
  have ex: "\<forall>f \<in> set flds. json_exact (Value f)" using assms(2) by blast
  have out: "appendJSON cvt cfg now [] level msg flds
      = Inr (CHR ''{'' # member_text ?m0
             @ concat (map (\<lambda>m. CHR '','' # member_text m) ?ms) @ [CHR ''}''])"
    using appendJSON_members [OF ex, of cvt cfg now "[]" level msg] by simp
  have keys: "json_safe ''timestamp''" "json_safe ''level''" "json_safe ''message''"
    by (simp_all add: json_safe_def)
  have "reads_as ?m0"
    using keys(1) json_plain_safe [OF json_plain_Time_Format] by (rule reads_as_string_member)
  moreover have "reads_as (string_member ''level'' (Level_String level))"
    using keys(2) json_plain_safe [OF json_plain_Level_String] by (rule reads_as_string_member)
  moreover have "reads_as (string_member ''message'' msg)"
    using keys(3) assms(1) by (rule reads_as_string_member)
  moreover have "\<forall>m \<in> set (map field_member flds). reads_as m"
    using assms(2) by (auto simp add: reads_as_field_member)
  ultimately have all: "\<forall>m \<in> set (?m0 # ?ms). reads_as m" by simp
  have "map member_json (?m0 # ?ms)
      = (''timestamp'', JString ?ts) # (''level'', JString (Level_String level))
        # (''message'', JString msg) # map (\<lambda>f. (Key f, json_of_value (Value f))) flds"
    by (simp add: member_json_def string_member_def field_member_def)
  then show ?thesis using out parse_json_object [OF all] by simp
qed

subsection \<open>The scenario of the specification, and messages that do not read back\<close>

lemma appendJSON_epoch_plain:
  \<open>UseUTC cfg \<Longrightarrow> appendJSON cvt cfg epoch [] InfoLevel msg []
     = Inr (''{"timestamp":"1970-01-01T00:00:00Z","level":"INFO","message":"''
            @ concat (map escape_byte msg) @ ''"}'')\<close>
  by (simp add: appendJSON_def Let_def appendJSONString_eq Time_Format_epoch_json
        Level_String_Info)

lemma decimal_int_12345: "decimal_int 12345 = ''12345''"
  by (simp add: decimal_int_def decimal_nat.simps digit_char_simps digit_char_Suc0)

lemma MinInt64_not_12345: "(12345 :: int64) \<noteq> MinInt64"
  by (simp add: MinInt64_def)

lemma float_text_3_14159: "float_text (Finite 3537115888337719 (- 50)) = ''3.141''"
  using appendJSONFloat_3_14159 [of amd64_cvt "[]"] by (simp add: float_text_def)

lemma float64_fits_3_14159: "float64_fits (Finite 3537115888337719 (- 50))"
  by (simp add: float64_fits_def f64_trunc_def)

lemma appendJSON_scenario:
  \<open>UseUTC cfg \<Longrightarrow>
   appendJSON cvt cfg epoch [] InfoLevel ''started''
     [\<lparr>Key = ''userID'', Value = VInt 12345\<rparr>,
      \<lparr>Key = ''ratio'', Value = VFloat64 (Finite 3537115888337719 (- 50))\<rparr>]
     = Inr ''{"timestamp":"1970-01-01T00:00:00Z","level":"INFO","message":"started","userID":12345,"ratio":3.141}''\<close>
  by (simp add: appendJSON_def Let_def appendJSONString_eq Time_Format_epoch_json
        Level_String_Info escape_byte_def appendJSONValue_def
        appendInt_decimal [OF MinInt64_not_12345] decimal_int_12345 appendJSONFloat_3_14159)

theorem json_record_reads_back_witness:
  \<open>json_safe ''started''
   \<and> json_safe ''userID'' \<and> json_exact (VInt 12345)
   \<and> json_safe ''ratio'' \<and> json_exact (VFloat64 (Finite 3537115888337719 (- 50)))
   \<and> appendJSON amd64_cvt \<lparr>Level = InfoLevel, Format = JSONFormat, BufferSize = 0, UseUTC = True\<rparr>
        epoch [] InfoLevel ''started''
        [\<lparr>Key = ''userID'', Value = VInt 12345\<rparr>,
         \<lparr>Key = ''ratio'', Value = VFloat64 (Finite 3537115888337719 (- 50))\<rparr>]
       = Inr ''{"timestamp":"1970-01-01T00:00:00Z","level":"INFO","message":"started","userID":12345,"ratio":3.141}''
   \<and> parse_json
        ''{"timestamp":"1970-01-01T00:00:00Z","level":"INFO","message":"started","userID":12345,"ratio":3.141}''
       = Some (JObject [(''timestamp'', JString ''1970-01-01T00:00:00Z''),
                        (''level'', JString ''INFO''),
                        (''message'', JString ''started''),
                        (''userID'', JNumber ''12345''),
                        (''ratio'', JNumber ''3.141'')])
   \<and> json_safe (''caf'' @ [CHR 0xC3, CHR 0xA9])
   \<and> appendJSON amd64_cvt \<lparr>Level = InfoLevel, Format = JSONFormat, BufferSize = 0, UseUTC = True\<rparr>
        epoch [] InfoLevel (''caf'' @ [CHR 0xC3, CHR 0xA9]) []
       = Inr (''{"timestamp":"1970-01-01T00:00:00Z","level":"INFO","message":"caf''
              @ [CHR 0xC3, CHR 0xA9] @ ''"}'')
   \<and> parse_json
        (''{"timestamp":"1970-01-01T00:00:00Z","level":"INFO","message":"caf''
         @ [CHR 0xC3, CHR 0xA9] @ ''"}'')
       = Some (JObject [(''timestamp'', JString ''1970-01-01T00:00:00Z''),
                        (''level'', JString ''INFO''),
                        (''message'', JString (''caf'' @ [CHR 0xC3, CHR 0xA9]))])\<close>
proof -
  let ?cfg = "\<lparr>Level = InfoLevel, Format = JSONFormat, BufferSize = 0, UseUTC = True\<rparr>"
  let ?flds = "[\<lparr>Key = ''userID'', Value = VInt 12345\<rparr>,
                \<lparr>Key = ''ratio'', Value = VFloat64 (Finite 3537115888337719 (- 50))\<rparr>]"
  have h1: "json_safe ''started''" by (simp add: json_safe_def)
  have h2: "\<forall>f \<in> set ?flds. json_safe (Key f) \<and> json_exact (Value f)"
    by (simp add: json_safe_def json_exact_def MinInt64_not_12345 float64_fits_3_14159)
  have enc: \<open>appendJSON amd64_cvt ?cfg epoch [] InfoLevel ''started'' ?flds
       = Inr ''{"timestamp":"1970-01-01T00:00:00Z","level":"INFO","message":"started","userID":12345,"ratio":3.141}''\<close>
    by (rule appendJSON_scenario) simp
  from json_record_reads_back [OF h1 h2, of amd64_cvt ?cfg epoch InfoLevel]
  have \<open>parse_json
        ''{"timestamp":"1970-01-01T00:00:00Z","level":"INFO","message":"started","userID":12345,"ratio":3.141}''
       = Some (JObject [(''timestamp'', JString ''1970-01-01T00:00:00Z''),
                        (''level'', JString ''INFO''),
                        (''message'', JString ''started''),
                        (''userID'', JNumber ''12345''),
                        (''ratio'', JNumber ''3.141'')])\<close>
    by (simp add: enc Time_Format_epoch_json Level_String_Info json_of_value_def
          decimal_int_12345 float_text_3_14159)
  moreover have "json_safe ''userID''" "json_exact (VInt 12345)"
    "json_safe ''ratio''" "json_exact (VFloat64 (Finite 3537115888337719 (- 50)))"
    using h2 by simp_all
  ultimately have first: \<open>json_safe ''started''
   \<and> json_safe ''userID'' \<and> json_exact (VInt 12345)
   \<and> json_safe ''ratio'' \<and> json_exact (VFloat64 (Finite 3537115888337719 (- 50)))
   \<and> appendJSON amd64_cvt ?cfg epoch [] InfoLevel ''started'' ?flds
       = Inr ''{"timestamp":"1970-01-01T00:00:00Z","level":"INFO","message":"started","userID":12345,"ratio":3.141}''
   \<and> parse_json
        ''{"timestamp":"1970-01-01T00:00:00Z","level":"INFO","message":"started","userID":12345,"ratio":3.141}''
       = Some (JObject [(''timestamp'', JString ''1970-01-01T00:00:00Z''),
                        (''level'', JString ''INFO''),
                        (''message'', JString ''started''),
                        (''userID'', JNumber ''12345''),
                        (''ratio'', JNumber ''3.141'')])\<close>
    using h1 enc by blast
  let ?msg = "''caf'' @ [CHR 0xC3, CHR 0xA9]"
  have g1: "json_safe ?msg"
    by (simp add: json_safe_def utf8_tail_def utf8_ranges_def)
  have g2: "\<forall>f \<in> set ([] :: Field list). json_safe (Key f) \<and> json_exact (Value f)" by simp
  have enc2: \<open>appendJSON amd64_cvt ?cfg epoch [] InfoLevel ?msg []
       = Inr (''{"timestamp":"1970-01-01T00:00:00Z","level":"INFO","message":"caf''
              @ [CHR 0xC3, CHR 0xA9] @ ''"}'')\<close>
    using appendJSON_epoch_plain [of ?cfg amd64_cvt ?msg] by (simp add: escape_byte_def)
  from json_record_reads_back [OF g1 g2, of amd64_cvt ?cfg epoch InfoLevel]
  obtain out where o: "appendJSON amd64_cvt ?cfg epoch [] InfoLevel ?msg [] = Inr out"
    and rd: "parse_json out
       = Some (JObject [(''timestamp'', JString ''1970-01-01T00:00:00Z''),
                        (''level'', JString ''INFO''),
                        (''message'', JString ?msg)])"
    by (auto simp add: Time_Format_epoch_json Level_String_Info)
  have \<open>out = ''{"timestamp":"1970-01-01T00:00:00Z","level":"INFO","message":"caf''
              @ [CHR 0xC3, CHR 0xA9] @ ''"}''\<close>
    using o enc2 by (simp only: sum.inject)
  then have \<open>parse_json
        (''{"timestamp":"1970-01-01T00:00:00Z","level":"INFO","message":"caf''
         @ [CHR 0xC3, CHR 0xA9] @ ''"}'')
       = Some (JObject [(''timestamp'', JString ''1970-01-01T00:00:00Z''),
                        (''level'', JString ''INFO''),
                        (''message'', JString (''caf'' @ [CHR 0xC3, CHR 0xA9]))])\<close>
    using rd by (simp only:)
  then show ?thesis using first g1 enc2 by blast
qed

text \<open>
  Claim C4 as written fails: for a message that holds the byte 0x01 the encoder copies the
  byte into the string as it is, and a JSON string may not contain a control character
  that is not escaped; the record is not a JSON text.
\<close>

theorem json_record_control_character_counterexample:
  \<open>appendJSON amd64_cvt \<lparr>Level = InfoLevel, Format = JSONFormat, BufferSize = 0, UseUTC = True\<rparr>
     epoch [] InfoLevel [CHR 0x01] []
     = Inr (''{"timestamp":"1970-01-01T00:00:00Z","level":"INFO","message":"'' @ [CHR 0x01] @ ''"}'')
   \<and> parse_json
       (''{"timestamp":"1970-01-01T00:00:00Z","level":"INFO","message":"'' @ [CHR 0x01] @ ''"}'')
     = None\<close>
proof
  show \<open>appendJSON amd64_cvt \<lparr>Level = InfoLevel, Format = JSONFormat, BufferSize = 0, UseUTC = True\<rparr>
     epoch [] InfoLevel [CHR 0x01] []
     = Inr (''{"timestamp":"1970-01-01T00:00:00Z","level":"INFO","message":"'' @ [CHR 0x01] @ ''"}'')\<close>
    using appendJSON_epoch_plain
            [of "\<lparr>Level = InfoLevel, Format = JSONFormat, BufferSize = 0, UseUTC = True\<rparr>"
                amd64_cvt "[CHR 0x01]"]
    by (simp add: escape_byte_def)
next
  let ?ts = "string_member ''timestamp'' ''1970-01-01T00:00:00Z''"
  let ?lv = "string_member ''level'' ''INFO''"
  let ?bad = \<open>''"message":"'' @ [CHR 0x01] @ ''"}''\<close>
  have r: "reads_as ?ts" "reads_as ?lv"
    by (simp_all add: reads_as_string_member json_safe_def)
  have c: "closes_value (CHR '','')" by (simp add: closes_value_def)
  have pv: "parse_value n (dquote # CHR 0x01 # s) = None" for n s
    by (cases n) (simp_all add: parse_value.simps skip_ws_Cons not_ws_simps)
  have bad: "parse_members (Suc n) ?bad = None" for n
    by (simp add: parse_members.simps(2) skip_ws_Cons not_ws_simps cons_result_def pv)
  have lv: "parse_members (Suc (Suc n)) (member_text ?lv @ CHR '','' # ?bad) = None" for n
    using parse_one_member [OF r(2) c, of n ?bad] by (simp only: bad) simp
  have ts: "parse_members (Suc (Suc (Suc n)))
              (member_text ?ts @ CHR '','' # member_text ?lv @ CHR '','' # ?bad) = None" for n
    using parse_one_member [OF r(1) c, of "Suc n" "member_text ?lv @ CHR '','' # ?bad"]
    by (simp only: lv) simp
  have shape: \<open>''{"timestamp":"1970-01-01T00:00:00Z","level":"INFO","message":"'' @ [CHR 0x01] @ ''"}''
        = CHR ''{'' # member_text ?ts @ CHR '','' # member_text ?lv @ CHR '','' # ?bad\<close>
    by (simp add: member_text_def string_member_def escape_byte_def)
  have "parse_value (Suc (Suc (Suc (Suc n))))
          (CHR ''{'' # member_text ?ts @ CHR '','' # member_text ?lv @ CHR '','' # ?bad) = None" for n
    using ts [of n]
    by (simp add: parse_value.simps(2) skip_ws_Cons not_ws_simps member_text_def
          string_member_def del: parse_string_body.simps)
  then have "parse_value (Suc (length (CHR ''{'' # member_text ?ts @ CHR '','' # member_text ?lv
                                       @ CHR '','' # ?bad)))
          (CHR ''{'' # member_text ?ts @ CHR '','' # member_text ?lv @ CHR '','' # ?bad) = None"
    by (simp add: member_text_def string_member_def del: parse_string_body.simps)
  then show \<open>parse_json
       (''{"timestamp":"1970-01-01T00:00:00Z","level":"INFO","message":"'' @ [CHR 0x01] @ ''"}'')
     = None\<close>
    unfolding shape parse_json_def by simp
qed

text \<open>
  A message that is not well-formed UTF-8 does not read back either: the encoder copies the
  byte 0xFF into the string as it is, no UTF-8 sequence begins with that byte, and the
  record is not a JSON text.
\<close>

lemma json_record_malformed_utf8:
  \<open>\<not> json_safe [CHR 0xFF]
   \<and> appendJSON amd64_cvt \<lparr>Level = InfoLevel, Format = JSONFormat, BufferSize = 0, UseUTC = True\<rparr>
     epoch [] InfoLevel [CHR 0xFF] []
     = Inr (''{"timestamp":"1970-01-01T00:00:00Z","level":"INFO","message":"'' @ [CHR 0xFF] @ ''"}'')
   \<and> parse_json
       (''{"timestamp":"1970-01-01T00:00:00Z","level":"INFO","message":"'' @ [CHR 0xFF] @ ''"}'')
     = None\<close>
proof (intro conjI)
  show "\<not> json_safe [CHR 0xFF]"
    by (simp add: json_safe_def utf8_tail_def utf8_ranges_def)
next
  show \<open>appendJSON amd64_cvt \<lparr>Level = InfoLevel, Format = JSONFormat, BufferSize = 0, UseUTC = True\<rparr>
     epoch [] InfoLevel [CHR 0xFF] []
     = Inr (''{"timestamp":"1970-01-01T00:00:00Z","level":"INFO","message":"'' @ [CHR 0xFF] @ ''"}'')\<close>
    using appendJSON_epoch_plain
            [of "\<lparr>Level = InfoLevel, Format = JSONFormat, BufferSize = 0, UseUTC = True\<rparr>"
                amd64_cvt "[CHR 0xFF]"]
    by (simp add: escape_byte_def)
next
  let ?ts = "string_member ''timestamp'' ''1970-01-01T00:00:00Z''"
  let ?lv = "string_member ''level'' ''INFO''"
  let ?bad = \<open>''"message":"'' @ [CHR 0xFF] @ ''"}''\<close>
  have r: "reads_as ?ts" "reads_as ?lv"
    by (simp_all add: reads_as_string_member json_safe_def)
  have c: "closes_value (CHR '','')" by (simp add: closes_value_def)
  have pv: "parse_value n (dquote # CHR 0xFF # s) = None" for n s
    by (cases n)
       (simp_all add: parse_value.simps skip_ws_Cons not_ws_simps utf8_tail_def utf8_ranges_def)
  have bad: "parse_members (Suc n) ?bad = None" for n
    by (simp add: parse_members.simps(2) skip_ws_Cons not_ws_simps cons_result_def pv)
  have lv: "parse_members (Suc (Suc n)) (member_text ?lv @ CHR '','' # ?bad) = None" for n
    using parse_one_member [OF r(2) c, of n ?bad] by (simp only: bad) simp
  have ts: "parse_members (Suc (Suc (Suc n)))
              (member_text ?ts @ CHR '','' # member_text ?lv @ CHR '','' # ?bad) = None" for n
    using parse_one_member [OF r(1) c, of "Suc n" "member_text ?lv @ CHR '','' # ?bad"]
    by (simp only: lv) simp
  have shape: \<open>''{"timestamp":"1970-01-01T00:00:00Z","level":"INFO","message":"'' @ [CHR 0xFF] @ ''"}''
        = CHR ''{'' # member_text ?ts @ CHR '','' # member_text ?lv @ CHR '','' # ?bad\<close>
    by (simp add: member_text_def string_member_def escape_byte_def)
  have "parse_value (Suc (Suc (Suc (Suc n))))
          (CHR ''{'' # member_text ?ts @ CHR '','' # member_text ?lv @ CHR '','' # ?bad) = None" for n
    using ts [of n]
    by (simp add: parse_value.simps(2) skip_ws_Cons not_ws_simps member_text_def
          string_member_def del: parse_string_body.simps)
  then have "parse_value (Suc (length (CHR ''{'' # member_text ?ts @ CHR '','' # member_text ?lv
                                       @ CHR '','' # ?bad)))
          (CHR ''{'' # member_text ?ts @ CHR '','' # member_text ?lv @ CHR '','' # ?bad) = None"
    by (simp add: member_text_def string_member_def del: parse_string_body.simps)
  then show \<open>parse_json
       (''{"timestamp":"1970-01-01T00:00:00Z","level":"INFO","message":"'' @ [CHR 0xFF] @ ''"}'')
     = None\<close>
    unfolding shape parse_json_def by simp
qed

end
